theory Spec2Isabelle
  imports Complex_Main "HOL-Library.Char_ord" "HOL-Library.List_Lexorder" "HOL-Library.Log_Nat"
    "HOL-Library.Multiset"
begin

section \<open>Values of Go's \<open>any\<close> and their \<open>%v\<close> rendering\<close>

text \<open>
  The engine stores facts, literals and port results as Go \<open>any\<close>. The dynamic types
  the engine inspects are \<open>nil\<close>, \<open>bool\<close>, \<open>string\<close>, the integer types
  \<open>int\<close>, \<open>int64\<close>, \<open>int32\<close>, the float types \<open>float64\<close>, \<open>float32\<close>,
  \<open>map[string]any\<close> and slices. A finite float is carried by its mathematical value;
  NaN, the infinities and negative zero are outside the model. A Go map is carried by an
  association list whose first entry for a key is the binding.
\<close>

datatype val =
    VNil
  | VBool bool
  | VStr string
  | VInt int
  | VInt64 int
  | VInt32 int
  | VFloat64 real
  | VFloat32 real
  | VMap "(string \<times> val) list"
  | VList "val list"

text \<open>Decimal digits of a natural number, most significant first.\<close>

fun digits10 :: "nat \<Rightarrow> string" where
  "digits10 n =
     (if n < 10 then [char_of (48 + n)]
      else digits10 (n div 10) @ [char_of (48 + n mod 10)])"

declare digits10.simps [simp del]

definition fmt_int :: "int \<Rightarrow> string" where
  "fmt_int i = (if i < 0 then CHR ''-'' # digits10 (nat (- i)) else digits10 (nat i))"

text \<open>\<open>strings.Join\<close>.\<close>

fun join :: "string list \<Rightarrow> string \<Rightarrow> string" where
  "join [] sep = []"
| "join [x] sep = x"
| "join (x # y # ys) sep = x @ sep @ join (y # ys) sep"

text \<open>
  The entries of a Go map in the order \<open>fmt\<close> prints them: one entry per key (the
  binding, that is the first entry of the association list), sorted by key.
\<close>

definition map_entries :: "(string \<times> 'a) list \<Rightarrow> (string \<times> 'a) list" where
  "map_entries kvs =
     sort_key fst (map (\<lambda>k. (k, the (map_of kvs k))) (remdups (map fst kvs)))"

text \<open>
  \<open>fmt_v ff v\<close> is \<open>fmt.Sprintf("%v", v)\<close>. The shortest-digits rendering of floats is
  the work of Go's \<open>strconv\<close> and is not reproduced: \<open>ff\<close> is that rendering, given the
  bit size (64 or 32) and the value. Maps print their entries sorted by key.
\<close>

fun fmt_v :: "(nat \<Rightarrow> real \<Rightarrow> string) \<Rightarrow> val \<Rightarrow> string" where
  "fmt_v ff VNil = ''<nil>''"
| "fmt_v ff (VBool b) = (if b then ''true'' else ''false'')"
| "fmt_v ff (VStr s) = s"
| "fmt_v ff (VInt i) = fmt_int i"
| "fmt_v ff (VInt64 i) = fmt_int i"
| "fmt_v ff (VInt32 i) = fmt_int i"
| "fmt_v ff (VFloat64 x) = ff 64 x"
| "fmt_v ff (VFloat32 x) = ff 32 x"
| "fmt_v ff (VMap kvs) =
     ''map['' @ join (map (\<lambda>(k, s). k @ '':'' @ s)
                     (map_entries (map (\<lambda>(k, v). (k, fmt_v ff v)) kvs))) '' '' @ '']''"
| "fmt_v ff (VList vs) = ''['' @ join (map (fmt_v ff) vs) '' '' @ '']''"

text \<open>
  Go's conversion \<open>float64(n)\<close> of an integer: exact below \<open>2^53\<close> in magnitude,
  rounded to the nearest 53-bit significand (ties to even) above.
\<close>

definition f64_of_int :: "int \<Rightarrow> real" where
  "f64_of_int n =
     (let a = \<bar>n\<bar> in
      if a < 2 ^ 53 then of_int n
      else
        let e = nat (bitlen a) - 53;
            q = a div 2 ^ e;
            r = a mod 2 ^ e;
            h = 2 ^ (e - 1);
            q' = (if h < r \<or> (r = h \<and> odd q) then q + 1 else q)
        in of_int (sgn n * q' * 2 ^ e))"

text \<open>\<open>toFloat\<close>: the number behind a value, when its dynamic type is numeric.\<close>

fun toFloat :: "val \<Rightarrow> real \<times> bool" where
  "toFloat (VFloat64 x) = (x, True)"
| "toFloat (VFloat32 x) = (x, True)"
| "toFloat (VInt i) = (f64_of_int i, True)"
| "toFloat (VInt64 i) = (f64_of_int i, True)"
| "toFloat (VInt32 i) = (f64_of_int i, True)"
| "toFloat _ = (0, False)"

section \<open>The fact set\<close>

type_synonym factSet = "string \<rightharpoonup> val"

definition NewFactSet :: factSet where
  "NewFactSet = Map.empty"

definition Set_fact :: "factSet \<Rightarrow> string \<Rightarrow> val \<Rightarrow> factSet" where
  "Set_fact f name v = f(name \<mapsto> v)"

definition Get_fact :: "factSet \<Rightarrow> string \<Rightarrow> val \<times> bool" where
  "Get_fact f name = (case f name of Some v \<Rightarrow> (v, True) | None \<Rightarrow> (VNil, False))"

definition Snapshot :: "factSet \<Rightarrow> (string \<rightharpoonup> val)" where
  "Snapshot f = f"

text \<open>\<open>strings.Split(s, ".")\<close> for the one-character separator the engine uses.\<close>

fun split :: "string \<Rightarrow> char \<Rightarrow> string list" where
  "split [] c = [[]]"
| "split (x # xs) c =
     (if x = c then [] # split xs c
      else (case split xs c of p # ps \<Rightarrow> (x # p) # ps | [] \<Rightarrow> [[x]]))"

fun navigatePath :: "val \<Rightarrow> string list \<Rightarrow> val \<times> bool" where
  "navigatePath v [] = (v, True)"
| "navigatePath v (part # rest) =
     (case v of
        VMap m \<Rightarrow>
          (case map_of m part of
             Some v' \<Rightarrow> navigatePath v' rest
           | None \<Rightarrow> (VNil, False))
      | _ \<Rightarrow> (VNil, False))"

text \<open>
  The loop of \<open>GetPath\<close> over \<open>i = len(parts) - 1, ..., 1\<close>: the argument is the current
  \<open>i\<close>, and the loop ends at \<open>0\<close>.
\<close>

fun GetPath_loop :: "factSet \<Rightarrow> string list \<Rightarrow> nat \<Rightarrow> val \<times> bool" where
  "GetPath_loop f parts 0 = (VNil, False)"
| "GetPath_loop f parts (Suc j) =
     (case f (join (take (Suc j) parts) ''.'') of
        Some v \<Rightarrow> navigatePath v (drop (Suc j) parts)
      | None \<Rightarrow> GetPath_loop f parts j)"

definition GetPath :: "factSet \<Rightarrow> string \<Rightarrow> val \<times> bool" where
  "GetPath f path =
     (case f path of
        Some v \<Rightarrow> (v, True)
      | None \<Rightarrow> (let parts = split path CHR ''.'' in GetPath_loop f parts (length parts - 1)))"

section \<open>Conditions\<close>

text \<open>
  \<open>Condition\<close> is one struct with every field optional. An absent \<open>any\<close> field is
  \<open>nil\<close>, here \<open>VNil\<close>; an absent slice is empty; an absent \<open>*Condition\<close> is
  \<open>None\<close>; an absent string is empty.
\<close>

datatype condition =
  Condition (cAll: "condition list") (cAny: "condition list") (cNot: "condition option")
    (cFact: string) (cEquals: val) (cGreaterThan: val) (cLessThan: val) (cIn: "val list")

fun applyOp :: "(nat \<Rightarrow> real \<Rightarrow> string) \<Rightarrow> string \<Rightarrow> val \<Rightarrow> val \<Rightarrow> bool" where
  "applyOp ff op left right =
     (if op = ''equals'' then fmt_v ff left = fmt_v ff right
      else if op = ''greater_than'' then
        (case (toFloat left, toFloat right) of
           ((fl, okl), (fr, okr)) \<Rightarrow> okl \<and> okr \<and> fl > fr)
      else if op = ''less_than'' then
        (case (toFloat left, toFloat right) of
           ((fl, okl), (fr, okr)) \<Rightarrow> okl \<and> okr \<and> fl < fr)
      else False)"

declare applyOp.simps [simp del]

fun evalCondition :: "(nat \<Rightarrow> real \<Rightarrow> string) \<Rightarrow> condition \<Rightarrow> factSet \<Rightarrow> bool" where
  "evalCondition ff (Condition alls anys neg fname eq gt lt inn) facts =
     (if alls \<noteq> [] then (\<forall>sub \<in> set alls. evalCondition ff sub facts)
      else if anys \<noteq> [] then (\<exists>sub \<in> set anys. evalCondition ff sub facts)
      else if neg \<noteq> None then (\<not> evalCondition ff (the neg) facts)
      else if fname \<noteq> [] then
        (let left = fst (GetPath facts fname) in
         if eq \<noteq> VNil then applyOp ff ''equals'' left eq
         else if gt \<noteq> VNil then applyOp ff ''greater_than'' left gt
         else if lt \<noteq> VNil then applyOp ff ''less_than'' left lt
         else if inn \<noteq> [] then (\<exists>v \<in> set inn. applyOp ff ''equals'' left v)
         else True)
      else True)"

declare evalCondition.simps [simp del]

section \<open>The contract\<close>

text \<open>
  The structs of the contract. A Go map of the contract is an association list: lookup is
  \<open>map_of\<close>, and the order of the list stands for the order in which the Go runtime
  happens to iterate the map, which the language leaves open.
\<close>

record factDef =
  fd_Source :: string
  fd_Required :: bool
  fd_OnMissing :: string

record derivationArg =
  da_Fact :: string
  da_Op :: string
  da_Value :: val

record derivation =
  d_Fn :: string
  d_Args :: "derivationArg list"

record derivedFactDef =
  Derivation :: derivation

record errorEnvelope =
  ee_Code :: string
  ee_Message :: string
  ee_HttpStatus :: int
  ee_Category :: string
  ee_Retryable :: bool
  ee_Suggestion :: string

record denyVerdict =
  dv_Code :: string
  dv_Reason :: string
  dv_Error :: errorEnvelope

record escalateVerdict =
  ev_Queue :: string
  ev_Reason :: string

record requireVerdict =
  rv_Conditions :: "string list"
  rv_Reason :: string

record flagVerdict =
  fv_Code :: string
  fv_Reason :: string

record verdictDef =
  vd_Deny :: "denyVerdict option"
  vd_Escalate :: "escalateVerdict option"
  vd_Require :: "requireVerdict option"
  vd_Flag :: "flagVerdict option"

record ruleDef =
  r_ID :: string
  r_AppliesTo :: "string list"
  r_When :: condition
  r_Verdict :: verdictDef

record entityTransitionRef =
  etr_Entity :: string
  etr_From :: string
  etr_To :: string

record operationDef =
  o_ConstrainedBy :: "string list"
  o_Transitions :: "entityTransitionRef list"

record transition =
  t_From :: string
  t_To :: string
  t_Via :: string

record entityDef =
  e_States :: "string list"
  e_Initial :: string
  e_Terminal :: "string list"
  e_Transitions :: "transition list"

record contract =
  Facts :: "(string \<times> factDef) list"
  DerivedFacts :: "(string \<times> derivedFactDef) list"
  Rules :: "ruleDef list"
  Operations :: "(string \<times> operationDef) list"
  Entities :: "(string \<times> entityDef) list"

record request =
  Operation :: string
  Input :: "string \<rightharpoonup> val"
  DryRun :: bool
  ContractETag :: string

record verdict =
  v_Type :: string
  v_Code :: string
  v_Reason :: string
  v_Error :: "errorEnvelope option"
  v_Queue :: string

record response =
  Outcome :: string
  Output :: "(string \<times> val) list option"
  Error :: "errorEnvelope option"
  Verdicts :: "verdict list"
  FactSnapshot :: "(string \<rightharpoonup> val) option"
  resp_DryRun :: bool

text \<open>The zero \<open>Response\<close>, from which each return of \<open>Evaluate\<close> sets its fields.\<close>

definition Response0 :: response where
  "Response0 = \<lparr>Outcome = [], Output = None, Error = None, Verdicts = [],
                 FactSnapshot = None, resp_DryRun = False\<rparr>"

section \<open>Verdict resolution\<close>

text \<open>The \<open>priority\<close> table; a type outside the table reads as the zero value.\<close>

definition priority :: "string \<Rightarrow> int" where
  "priority t =
     (if t = ''deny'' then 4 else if t = ''escalate'' then 3
      else if t = ''require'' then 2 else if t = ''flag'' then 1 else 0)"

text \<open>The loop of \<open>resolveVerdicts\<close>, with \<open>best\<close> as its state.\<close>

fun resolveVerdicts_loop :: "verdict list \<Rightarrow> verdict option \<Rightarrow> verdict option" where
  "resolveVerdicts_loop [] best = best"
| "resolveVerdicts_loop (v # vs) best =
     resolveVerdicts_loop vs
       (if best = None \<or> priority (v_Type v) > priority (v_Type (the best))
        then Some v else best)"

definition resolveVerdicts :: "verdict list \<Rightarrow> verdict option" where
  "resolveVerdicts verdicts = resolveVerdicts_loop verdicts None"

definition dryRunOutcome :: "verdict option \<Rightarrow> string" where
  "dryRunOutcome v =
     (case v of
        None \<Rightarrow> ''would_execute''
      | Some b \<Rightarrow>
          (if v_Type b = ''deny'' then ''would_deny''
           else if v_Type b = ''escalate'' then ''would_escalate''
           else if v_Type b = ''require'' then ''would_require''
           else ''would_execute_with_flags''))"

section \<open>Derived facts\<close>

text \<open>
  \<open>topoSort\<close> keeps two variables, \<open>visited\<close> and \<open>order\<close>, which its closure
  \<open>visit\<close> updates; they are the state passed through. \<open>visit_args\<close> is the loop of
  \<open>visit\<close> over the arguments of a derivation.
\<close>

type_synonym visitState = "string set \<times> string list"

function visit :: "(string \<times> derivedFactDef) list \<Rightarrow> string \<Rightarrow> visitState \<Rightarrow> visitState"
  and visit_args ::
    "(string \<times> derivedFactDef) list \<Rightarrow> derivationArg list \<Rightarrow> visitState \<Rightarrow> visitState"
where
  "visit dfs name (visited, order) =
     (if name \<in> visited then (visited, order)
      else
        (case map_of dfs name of
           None \<Rightarrow> (insert name visited, order)
         | Some df \<Rightarrow>
             (case visit_args dfs (d_Args (Derivation df)) (insert name visited, order) of
                (visited', order') \<Rightarrow> (visited', order' @ [name]))))"
| "visit_args dfs [] st = st"
| "visit_args dfs (arg # args) st =
     visit_args dfs args (if da_Fact arg \<noteq> [] then visit dfs (da_Fact arg) st else st)"
  by pat_completeness auto

text \<open>
  The recursion is nested: the state of a later call is the result of an earlier one. It
  ends because a call never removes a name from \<open>visited\<close>, and each descent into a
  derived fact adds one of the finitely many names of \<open>dfs\<close>.
\<close>

lemma visited_mono_dom:
  "visit_visit_args_dom (Inl (dfs, name, st)) \<Longrightarrow> fst st \<subseteq> fst (visit dfs name st)"
  "visit_visit_args_dom (Inr (dfs, args, st)) \<Longrightarrow> fst st \<subseteq> fst (visit_args dfs args st)"
proof (induction dfs name st and dfs args st rule: visit_visit_args.pinduct)
  case (1 dfs name visited order)
  then show ?case
    by (auto simp: visit.psimps split: option.splits prod.splits)
next
  case (2 dfs st)
  then show ?case by (simp add: visit_args.psimps)
next
  case (3 dfs arg args st)
  then show ?case
    by (auto simp: visit_args.psimps split: if_splits)
qed

termination visit
proof (relation "(\<lambda>x. case x of
           Inl (dfs, name, st) \<Rightarrow> card (fst ` set dfs - fst st)
         | Inr (dfs, args, st) \<Rightarrow> card (fst ` set dfs - fst st))
        <*mlex*>
        measure (\<lambda>x. case x of Inl _ \<Rightarrow> 0 | Inr (dfs, args, st) \<Rightarrow> Suc (length args))",
    goal_cases)
  case 1
  then show ?case by (simp add: wf_mlex)
next
  case (2 dfs name visited order df)
  have "name \<in> fst ` set dfs"
    using 2(2) by (metis map_of_eq_None_iff option.distinct(1))
  then have "card (fst ` set dfs - insert name visited) < card (fst ` set dfs - visited)"
    using 2(1) by (intro psubset_card_mono) auto
  then show ?case by (simp add: mlex_less)
next
  case (3 dfs arg args st)
  then show ?case by (auto intro!: mlex_leq)
next
  case (4 dfs arg args st)
  let ?st' = "if da_Fact arg \<noteq> [] then visit dfs (da_Fact arg) st else st"
  have "fst st \<subseteq> fst ?st'"
    using 4 visited_mono_dom(1) by auto
  then have "card (fst ` set dfs - fst ?st') \<le> card (fst ` set dfs - fst st)"
    by (intro card_mono) auto
  then show ?case by (auto intro!: mlex_leq)
qed

declare visit.simps [simp del]

text \<open>The loop \<open>for name := range dfs\<close>, over the keys in the order of the list.\<close>

definition topoSort :: "(string \<times> derivedFactDef) list \<Rightarrow> string list" where
  "topoSort dfs = snd (foldl (\<lambda>st name. visit dfs name st) ({}, []) (map fst dfs))"

text \<open>Errors of the engine, one constructor for each error the source builds.\<close>

datatype error =
    NoContractLoaded
  | UnknownOperation string
  | RequiredInputMissing string
  | FactError string string string
  | UnknownDerivationFunction string
  | DeriveError string error
  | DeriveFactsError error

text \<open>The closure \<open>getArg\<close> of \<open>evalDerivation\<close>.\<close>

definition getArg :: "factSet \<Rightarrow> derivationArg \<Rightarrow> val \<times> bool" where
  "getArg facts arg =
     (if da_Fact arg \<noteq> [] then GetPath facts (da_Fact arg)
      else (da_Value arg, da_Value arg \<noteq> VNil))"

text \<open>The loops of the \<open>and\<close> and \<open>or\<close> cases.\<close>

fun and_loop :: "(nat \<Rightarrow> real \<Rightarrow> string) \<Rightarrow> factSet \<Rightarrow> derivationArg list \<Rightarrow> bool" where
  "and_loop ff facts [] = True"
| "and_loop ff facts (arg # args) =
     (if da_Fact arg \<noteq> [] \<and> da_Op arg \<noteq> [] then
        (if \<not> applyOp ff (da_Op arg) (fst (GetPath facts (da_Fact arg))) (da_Value arg)
         then False else and_loop ff facts args)
      else
        (case fst (getArg facts arg) of
           VBool b \<Rightarrow> (if \<not> b then False else and_loop ff facts args)
         | _ \<Rightarrow> and_loop ff facts args))"

fun or_loop :: "factSet \<Rightarrow> derivationArg list \<Rightarrow> bool" where
  "or_loop facts [] = False"
| "or_loop facts (arg # args) =
     (case fst (getArg facts arg) of
        VBool b \<Rightarrow> (if b then True else or_loop facts args)
      | _ \<Rightarrow> or_loop facts args)"

text \<open>
  The three numeric comparisons share their shape: fewer than two arguments give
  \<open>false\<close>, and so does an argument that is not a number.
\<close>

definition compareArgs :: "(real \<Rightarrow> real \<Rightarrow> bool) \<Rightarrow> factSet \<Rightarrow> derivationArg list \<Rightarrow> val" where
  "compareArgs cmp facts args =
     (if length args < 2 then VBool False
      else
        (case (toFloat (fst (getArg facts (args ! 0))), toFloat (fst (getArg facts (args ! 1)))) of
           ((fa, oka), (fb, okb)) \<Rightarrow> if oka \<and> okb then VBool (cmp fa fb) else VBool False))"

definition evalDerivation ::
  "(nat \<Rightarrow> real \<Rightarrow> string) \<Rightarrow> derivation \<Rightarrow> factSet \<Rightarrow> error + val" where
  "evalDerivation ff d facts =
     (if d_Fn d = ''greater_than'' then Inr (compareArgs (\<lambda>a b. a > b) facts (d_Args d))
      else if d_Fn d = ''greater_or_equal'' then Inr (compareArgs (\<lambda>a b. a \<ge> b) facts (d_Args d))
      else if d_Fn d = ''less_than'' then Inr (compareArgs (\<lambda>a b. a < b) facts (d_Args d))
      else if d_Fn d = ''equals'' then
        (if length (d_Args d) < 2 then Inr (VBool False)
         else Inr (VBool (fmt_v ff (fst (getArg facts (d_Args d ! 0)))
                          = fmt_v ff (fst (getArg facts (d_Args d ! 1))))))
      else if d_Fn d = ''and'' then Inr (VBool (and_loop ff facts (d_Args d)))
      else if d_Fn d = ''or'' then Inr (VBool (or_loop facts (d_Args d)))
      else if d_Fn d = ''not'' then
        (if d_Args d = [] then Inr (VBool True)
         else
           (case fst (getArg facts (d_Args d ! 0)) of
              VBool b \<Rightarrow> Inr (VBool (\<not> b))
            | _ \<Rightarrow> Inr (VBool False)))
      else Inl (UnknownDerivationFunction (d_Fn d)))"

text \<open>
  A name of \<open>order\<close> that is no key of the map reads as the zero \<open>DerivedFactDef\<close>, as
  indexing a Go map does.
\<close>

definition DerivedFactDef0 :: derivedFactDef where
  "DerivedFactDef0 = \<lparr>Derivation = \<lparr>d_Fn = [], d_Args = []\<rparr>\<rparr>"

fun deriveFacts_loop ::
  "(nat \<Rightarrow> real \<Rightarrow> string) \<Rightarrow> contract \<Rightarrow> string list \<Rightarrow> factSet \<Rightarrow> error + factSet" where
  "deriveFacts_loop ff c [] facts = Inr facts"
| "deriveFacts_loop ff c (name # names) facts =
     (let df = (case map_of (DerivedFacts c) name of Some d \<Rightarrow> d | None \<Rightarrow> DerivedFactDef0) in
      case evalDerivation ff (Derivation df) facts of
        Inl err \<Rightarrow> Inl (DeriveError name err)
      | Inr v \<Rightarrow> deriveFacts_loop ff c names (Set_fact facts name v))"

definition deriveFacts :: "(nat \<Rightarrow> real \<Rightarrow> string) \<Rightarrow> contract \<Rightarrow> factSet \<Rightarrow> error + factSet" where
  "deriveFacts ff c facts = deriveFacts_loop ff c (topoSort (DerivedFacts c)) facts"

section \<open>Gathering facts\<close>

text \<open>
  \<open>collectFromCondition\<close> calls \<open>collect\<close> on every fact name of a condition tree. The
  callback updates variables of its caller; they are the state \<open>st\<close>.
\<close>

fun collectFromCondition :: "condition \<Rightarrow> (string \<Rightarrow> 's \<Rightarrow> 's) \<Rightarrow> 's \<Rightarrow> 's" where
  "collectFromCondition (Condition alls anys neg fname eq gt lt inn) collect st =
     (let st1 = (if fname \<noteq> [] then collect fname st else st);
          st2 = foldl (\<lambda>s sub. collectFromCondition sub collect s) st1 alls;
          st3 = foldl (\<lambda>s sub. collectFromCondition sub collect s) st2 anys
      in (case neg of Some sub \<Rightarrow> collectFromCondition sub collect st3 | None \<Rightarrow> st3))"

text \<open>
  \<open>neededBaseFacts\<close> keeps the sets \<open>needed\<close> and \<open>derivedVisited\<close>, which its
  closure \<open>addPath\<close> updates. \<open>needed\<close> is iterated later, so it is a list without
  repetition. \<open>addPath_args\<close> is the loop over the arguments of a derivation, and
  \<open>addPath_prefix\<close> the loop over \<open>i = len(parts) - 1, ..., 1\<close>.
\<close>

type_synonym neededState = "string list \<times> string set"

function addPath :: "contract \<Rightarrow> string \<Rightarrow> neededState \<Rightarrow> neededState"
  and addPath_args :: "contract \<Rightarrow> derivationArg list \<Rightarrow> neededState \<Rightarrow> neededState"
  and addPath_prefix :: "contract \<Rightarrow> string list \<Rightarrow> nat \<Rightarrow> neededState \<Rightarrow> neededState"
where
  "addPath c path (needed, derivedVisited) =
     (if map_of (Facts c) path \<noteq> None then (List.insert path needed, derivedVisited)
      else
        (case map_of (DerivedFacts c) path of
           Some df \<Rightarrow>
             (if path \<in> derivedVisited then (needed, derivedVisited)
              else addPath_args c (d_Args (Derivation df)) (needed, insert path derivedVisited))
         | None \<Rightarrow>
             (let parts = split path CHR ''.''
              in addPath_prefix c parts (length parts - 1) (needed, derivedVisited))))"
| "addPath_args c [] st = st"
| "addPath_args c (arg # args) st =
     addPath_args c args (if da_Fact arg \<noteq> [] then addPath c (da_Fact arg) st else st)"
| "addPath_prefix c parts 0 st = st"
| "addPath_prefix c parts (Suc j) (needed, derivedVisited) =
     (let prefix = join (take (Suc j) parts) ''.'' in
      if map_of (Facts c) prefix \<noteq> None then (List.insert prefix needed, derivedVisited)
      else if map_of (DerivedFacts c) prefix \<noteq> None then addPath c prefix (needed, derivedVisited)
      else addPath_prefix c parts j (needed, derivedVisited))"
  by pat_completeness auto

lemma derivedVisited_mono_dom:
  "addPath_addPath_args_addPath_prefix_dom (Inl (c, path, st)) \<Longrightarrow> snd st \<subseteq> snd (addPath c path st)"
  "addPath_addPath_args_addPath_prefix_dom (Inr (Inl (c, args, st))) \<Longrightarrow> snd st \<subseteq> snd (addPath_args c args st)"
  "addPath_addPath_args_addPath_prefix_dom (Inr (Inr (c, parts, i, st))) \<Longrightarrow> snd st \<subseteq> snd (addPath_prefix c parts i st)"
proof (induction c path st and c args st and c parts i st rule: addPath_addPath_args_addPath_prefix.pinduct)
  case (1 c path needed derivedVisited)
  then show ?case
    by (auto simp: addPath.psimps Let_def split: option.splits if_splits)
next
  case (2 c st)
  then show ?case by (simp add: addPath_args.psimps)
next
  case (3 c arg args st)
  then show ?case by (auto simp: addPath_args.psimps split: if_splits)
next
  case (4 c parts st)
  then show ?case by (simp add: addPath_prefix.psimps)
next
  case (5 c parts j needed derivedVisited)
  then show ?case by (auto simp: addPath_prefix.psimps Let_def split: if_splits)
qed

text \<open>
  For the termination of \<open>addPath\<close>: a path that names a derived fact is handled
  at once, any other path may first walk through its prefixes.
\<close>

definition pathRank :: "contract \<Rightarrow> string \<Rightarrow> nat" where
  "pathRank c path = (if map_of (DerivedFacts c) path \<noteq> None then 0 else 2 + length (split path CHR ''.''))"

termination addPath
proof (relation "(\<lambda>x. case x of
           Inl (c, path, st) \<Rightarrow> card (fst ` set (DerivedFacts c) - snd st)
         | Inr (Inl (c, args, st)) \<Rightarrow> card (fst ` set (DerivedFacts c) - snd st)
         | Inr (Inr (c, parts, i, st)) \<Rightarrow> card (fst ` set (DerivedFacts c) - snd st))
        <*mlex*>
        measure (\<lambda>x. case x of
           Inl (c, path, st) \<Rightarrow> pathRank c path
         | Inr (Inl (c, args, st)) \<Rightarrow> Suc (sum_list (map (\<lambda>a. Suc (pathRank c (da_Fact a))) args))
         | Inr (Inr (c, parts, i, st)) \<Rightarrow> Suc i)",
    goal_cases)
  case 1
  then show ?case by (simp add: wf_mlex)
next
  case (2 c path needed derivedVisited parts)
  then show ?case by (auto intro!: mlex_leq simp: pathRank_def)
next
  case (3 c path needed derivedVisited df)
  have "path \<in> fst ` set (DerivedFacts c)"
    using 3(2) by (metis map_of_eq_None_iff option.distinct(1))
  then have "card (fst ` set (DerivedFacts c) - insert path derivedVisited)
      < card (fst ` set (DerivedFacts c) - derivedVisited)"
    using 3(3) by (intro psubset_card_mono) auto
  then show ?case by (simp add: mlex_less)
next
  case (4 c arg args st)
  then show ?case by (auto intro!: mlex_leq)
next
  case (5 c arg args st)
  let ?st' = "if da_Fact arg \<noteq> [] then addPath c (da_Fact arg) st else st"
  have "snd st \<subseteq> snd ?st'"
    using 5 derivedVisited_mono_dom(1) by auto
  then have "card (fst ` set (DerivedFacts c) - snd ?st') \<le> card (fst ` set (DerivedFacts c) - snd st)"
    by (intro card_mono) auto
  then show ?case by (auto intro!: mlex_leq)
next
  case (6 c parts j needed derivedVisited prefix)
  then show ?case by (auto intro!: mlex_leq simp: pathRank_def)
next
  case (7 c parts j needed derivedVisited prefix)
  then show ?case by (auto intro!: mlex_leq)
qed

declare addPath.simps [simp del]

text \<open>The loops of \<open>neededBaseFacts\<close> over \<open>op.ConstrainedBy\<close> and over \<open>c.Rules\<close>.\<close>

fun needed_rules_loop :: "contract \<Rightarrow> string \<Rightarrow> ruleDef list \<Rightarrow> neededState \<Rightarrow> neededState" where
  "needed_rules_loop c ruleID [] st = st"
| "needed_rules_loop c ruleID (rule # rules) st =
     needed_rules_loop c ruleID rules
       (if r_ID rule = ruleID then collectFromCondition (r_When rule) (addPath c) st else st)"

fun needed_ids_loop :: "contract \<Rightarrow> string list \<Rightarrow> neededState \<Rightarrow> neededState" where
  "needed_ids_loop c [] st = st"
| "needed_ids_loop c (ruleID # ruleIDs) st =
     needed_ids_loop c ruleIDs (needed_rules_loop c ruleID (Rules c) st)"

definition neededBaseFacts :: "contract \<Rightarrow> string \<Rightarrow> string list" where
  "neededBaseFacts c operation =
     (case map_of (Operations c) operation of
        None \<Rightarrow> []
      | Some op \<Rightarrow> fst (needed_ids_loop c (o_ConstrainedBy op) ([], {})))"

text \<open>
  What the Go runtime decides and the source does not: how \<open>strconv\<close> renders a float
  (\<open>fmtFloat\<close>, by bit size), how \<open>%q\<close> quotes a string (\<open>quote\<close>), in which order
  \<open>range needed\<close> yields the names (\<open>rangeRank\<close>: the names come by increasing rank)
  and in which order the results of the port goroutines arrive on the channel
  (\<open>recvRank\<close>, likewise). Every order of distinct names is the order of some rank.
\<close>

record goRuntime =
  fmtFloat :: "nat \<Rightarrow> real \<Rightarrow> string"
  quote :: "string \<Rightarrow> string"
  rangeRank :: "string \<Rightarrow> nat"
  recvRank :: "string \<Rightarrow> nat"

text \<open>
  \<open>PortRegistry\<close>. One evaluation asks for each fact once and executes once, so a port
  is given by what it answers; an error is given by its message.
\<close>

record portRegistry =
  port_Get :: "string \<Rightarrow> string \<Rightarrow> (string \<rightharpoonup> val) \<Rightarrow> string + val"
  port_Execute :: "string \<Rightarrow> string \<Rightarrow> (string \<rightharpoonup> val) \<Rightarrow> string + (string \<times> val) list option"

text \<open>The calls an evaluation makes on the registry: port and fact, port and operation.\<close>

datatype portCall = CallGet string string | CallExecute string string

definition hasPrefix :: "string \<Rightarrow> string \<Rightarrow> bool" where
  "hasPrefix s pre = (take (length pre) s = pre)"

definition portName :: "string \<Rightarrow> string" where
  "portName source = (if hasPrefix source ''port:'' then drop 5 source else source)"

text \<open>
  The first loop of \<open>gatherFacts\<close>. Its state is the fact set and the goroutines started
  so far, each with the name and definition of its fact. The loop gives the error it
  returned with, if any, and the state it ended in: a goroutine that was started runs to
  its call of \<open>Get\<close> also when the loop returns early.
\<close>

fun gather_loop ::
  "contract \<Rightarrow> (string \<rightharpoonup> val) \<Rightarrow> string list \<Rightarrow> factSet \<times> (string \<times> factDef) list
     \<Rightarrow> error option \<times> factSet \<times> (string \<times> factDef) list" where
  "gather_loop c input [] (facts, started) = (None, facts, started)"
| "gather_loop c input (name # names) (facts, started) =
     (case map_of (Facts c) name of
        None \<Rightarrow> gather_loop c input names (facts, started)
      | Some def \<Rightarrow>
          (if fd_Source def = ''input'' then
             (case input name of
                Some v \<Rightarrow> gather_loop c input names (Set_fact facts name v, started)
              | None \<Rightarrow>
                  (if fd_Required def then (Some (RequiredInputMissing name), facts, started)
                   else gather_loop c input names (facts, started)))
           else if fd_Source def = ''ctx'' then
             (if name = ''user.roles''
              then gather_loop c input names
                     (Set_fact facts name (VList [VStr ''customer'']), started)
              else gather_loop c input names (facts, started))
           else if hasPrefix (fd_Source def) ''port:'' then
             gather_loop c input names (facts, started @ [(name, def)])
           else gather_loop c input names (facts, started)))"

text \<open>The second loop of \<open>gatherFacts\<close>, over the results as they arrive.\<close>

fun collect_loop :: "(string \<times> factDef \<times> (string + val)) list \<Rightarrow> factSet \<Rightarrow> error + factSet" where
  "collect_loop [] facts = Inr facts"
| "collect_loop ((name, def, res) # rs) facts =
     (case res of
        Inl reason \<Rightarrow>
          (if fd_OnMissing def = ''deny'' then Inl (FactError name reason ''denied'')
           else if fd_OnMissing def = ''skip'' then collect_loop rs facts
           else Inl (FactError name reason ''system_error''))
      | Inr v \<Rightarrow> collect_loop rs (Set_fact facts name v))"

text \<open>\<open>gatherFacts\<close> gives its result and the calls of \<open>Get\<close> it caused, by order of start.\<close>

definition gatherFacts ::
  "goRuntime \<Rightarrow> portRegistry \<Rightarrow> contract \<Rightarrow> string \<Rightarrow> (string \<rightharpoonup> val)
     \<Rightarrow> (error + factSet) \<times> portCall list" where
  "gatherFacts rt ports c operation input =
     (let needed = sort_key (rangeRank rt) (neededBaseFacts c operation) in
      case gather_loop c input needed (NewFactSet, []) of
        (err, facts, started) \<Rightarrow>
          (let calls = map (\<lambda>(n, d). CallGet (portName (fd_Source d)) n) started;
               results = map (\<lambda>(n, d). (n, d, port_Get ports (portName (fd_Source d)) n input))
                           started
           in case err of
                Some er \<Rightarrow> (Inl er, calls)
              | None \<Rightarrow> (collect_loop (sort_key (\<lambda>(n, d, r). recvRank rt n) results) facts, calls)))"

section \<open>Rule evaluation\<close>

text \<open>The \<open>switch\<close> of \<open>evaluateRules\<close> on the verdict a rule declares.\<close>

definition ruleVerdict :: "verdictDef \<Rightarrow> verdict list" where
  "ruleVerdict v =
     (case vd_Deny v of
        Some d \<Rightarrow> [\<lparr>v_Type = ''deny'', v_Code = dv_Code d, v_Reason = dv_Reason d,
                    v_Error = Some (dv_Error d), v_Queue = []\<rparr>]
      | None \<Rightarrow>
     (case vd_Escalate v of
        Some e \<Rightarrow> [\<lparr>v_Type = ''escalate'', v_Code = [], v_Reason = ev_Reason e,
                    v_Error = None, v_Queue = ev_Queue e\<rparr>]
      | None \<Rightarrow>
     (case vd_Require v of
        Some r \<Rightarrow> [\<lparr>v_Type = ''require'', v_Code = [], v_Reason = rv_Reason r,
                    v_Error = None, v_Queue = []\<rparr>]
      | None \<Rightarrow>
     (case vd_Flag v of
        Some f \<Rightarrow> [\<lparr>v_Type = ''flag'', v_Code = fv_Code f, v_Reason = fv_Reason f,
                    v_Error = None, v_Queue = []\<rparr>]
      | None \<Rightarrow> []))))"

definition OperationDef0 :: operationDef where
  "OperationDef0 = \<lparr>o_ConstrainedBy = [], o_Transitions = []\<rparr>"

fun evaluateRules_loop ::
  "(nat \<Rightarrow> real \<Rightarrow> string) \<Rightarrow> string list \<Rightarrow> ruleDef list \<Rightarrow> factSet \<Rightarrow> verdict list \<Rightarrow> verdict list" where
  "evaluateRules_loop ff ruleSet [] facts verdicts = verdicts"
| "evaluateRules_loop ff ruleSet (rule # rules) facts verdicts =
     (if r_ID rule \<notin> set ruleSet then evaluateRules_loop ff ruleSet rules facts verdicts
      else if \<not> evalCondition ff (r_When rule) facts
      then evaluateRules_loop ff ruleSet rules facts verdicts
      else evaluateRules_loop ff ruleSet rules facts (verdicts @ ruleVerdict (r_Verdict rule)))"

definition evaluateRules ::
  "(nat \<Rightarrow> real \<Rightarrow> string) \<Rightarrow> contract \<Rightarrow> string \<Rightarrow> factSet \<Rightarrow> verdict list" where
  "evaluateRules ff c operation facts =
     (let op = (case map_of (Operations c) operation of Some d \<Rightarrow> d | None \<Rightarrow> OperationDef0)
      in evaluateRules_loop ff (o_ConstrainedBy op) (Rules c) facts [])"

section \<open>The engine\<close>

record engine =
  e_contract :: "contract option"
  e_contractETag :: string
  e_ports :: portRegistry

definition NewEngine :: "portRegistry \<Rightarrow> engine" where
  "NewEngine ports = \<lparr>e_contract = None, e_contractETag = [], e_ports = ports\<rparr>"

definition LoadContract :: "engine \<Rightarrow> contract option \<Rightarrow> string \<Rightarrow> engine" where
  "LoadContract e c etag = e\<lparr>e_contract := c, e_contractETag := etag\<rparr>"

definition ETag :: "engine \<Rightarrow> string" where
  "ETag e = e_contractETag e"

definition operationPort :: "operationDef \<Rightarrow> string" where
  "operationPort op = ''invoiceRepo''"

definition systemError :: "string \<Rightarrow> string \<Rightarrow> int \<Rightarrow> errorEnvelope" where
  "systemError code message status =
     \<lparr>ee_Code = code, ee_Message = message, ee_HttpStatus = status,
      ee_Category = ''system'', ee_Retryable = True, ee_Suggestion = []\<rparr>"

definition versionMismatch :: response where
  "versionMismatch =
     Response0\<lparr>Outcome := ''system_error'',
       Error := Some (systemError ''CONTRACT_VERSION_MISMATCH''
         (''Client contract version is stale '' @ [CHR 0xE2, CHR 0x80, CHR 0x94]
            @ '' re-fetch contracts and retry'') 409)\<rparr>"

text \<open>The type assertion \<open>err.(*factError)\<close>.\<close>

fun asFactError :: "error \<Rightarrow> (string \<times> string \<times> string) option" where
  "asFactError (FactError fname reason outcome) = Some (fname, reason, outcome)"
| "asFactError _ = None"

text \<open>
  \<open>Evaluate\<close> gives what the Go function returns, an error or a response, and the calls
  the evaluation made on the port registry.
\<close>

definition Evaluate :: "goRuntime \<Rightarrow> engine \<Rightarrow> request \<Rightarrow> (error + response) \<times> portCall list" where
  "Evaluate rt e req =
     (case e_contract e of
        None \<Rightarrow> (Inl NoContractLoaded, [])
      | Some contract \<Rightarrow>
     if ContractETag req \<noteq> [] \<and> ContractETag req \<noteq> e_contractETag e
     then (Inr versionMismatch, [])
     else
     (case map_of (Operations contract) (Operation req) of
        None \<Rightarrow> (Inl (UnknownOperation (Operation req)), [])
      | Some op \<Rightarrow>
     (case gatherFacts rt (e_ports e) contract (Operation req) (Input req) of
        (Inl err, calls) \<Rightarrow>
          (case asFactError err of
             Some (fname, reason, outcome) \<Rightarrow>
               (Inr (Response0\<lparr>Outcome := outcome,
                       Error := Some (systemError ''FACT_UNAVAILABLE''
                         (''fact '' @ quote rt fname @ '' unavailable: '' @ reason) 503)\<rparr>), calls)
           | None \<Rightarrow> (Inl err, calls))
      | (Inr facts0, calls) \<Rightarrow>
     (case deriveFacts (fmtFloat rt) contract facts0 of
        Inl err \<Rightarrow> (Inl (DeriveFactsError err), calls)
      | Inr facts \<Rightarrow>
     (let verdicts = evaluateRules (fmtFloat rt) contract (Operation req) facts;
          final = resolveVerdicts verdicts
      in
      if DryRun req then
        (Inr (Response0\<lparr>resp_DryRun := True, Outcome := dryRunOutcome final,
                Verdicts := verdicts, FactSnapshot := Some (Snapshot facts)\<rparr>), calls)
      else if final \<noteq> None \<and> v_Type (the final) = ''deny'' then
        (Inr (Response0\<lparr>Outcome := ''denied'', Error := v_Error (the final),
                Verdicts := verdicts\<rparr>), calls)
      else if final \<noteq> None \<and> v_Type (the final) = ''escalate'' then
        (Inr (Response0\<lparr>Outcome := ''escalated'', Verdicts := verdicts\<rparr>), calls)
      else
        (case port_Execute (e_ports e) (operationPort op) (Operation req) (Input req) of
           Inl message \<Rightarrow>
             (Inr (Response0\<lparr>Outcome := ''system_error'',
                     Error := Some (systemError ''EXECUTION_FAILED'' message 500)\<rparr>),
              calls @ [CallExecute (operationPort op) (Operation req)])
         | Inr result \<Rightarrow>
             (Inr (Response0\<lparr>Outcome := ''executed'', Output := result, Verdicts := verdicts\<rparr>),
              calls @ [CallExecute (operationPort op) (Operation req)])))))))"

section \<open>Notions used in the statements\<close>

text \<open>The priority of a verdict is that of its type.\<close>

abbreviation prio :: "verdict \<Rightarrow> int" where
  "prio v \<equiv> priority (v_Type v)"

text \<open>
  A leaf condition: a fact name with its comparison fields, no \<open>all\<close>, \<open>any\<close> or
  \<open>not\<close>.
\<close>

definition leaf :: "string \<Rightarrow> val \<Rightarrow> val \<Rightarrow> val \<Rightarrow> val list \<Rightarrow> condition" where
  "leaf fname eq gt lt inn = Condition [] [] None fname eq gt lt inn"

text \<open>The fact names a derivation refers to: the non-empty \<open>Fact\<close> fields of its arguments.\<close>

definition argFacts :: "derivationArg list \<Rightarrow> string list" where
  "argFacts args = filter (\<lambda>f. f \<noteq> []) (map da_Fact args)"

text \<open>
  The reference edges of the derived-fact graph: from a derived fact to each fact its
  derivation names. A base fact has no outgoing edge.
\<close>

definition depEdges :: "(string \<times> derivedFactDef) list \<Rightarrow> (string \<times> string) set" where
  "depEdges dfs = {(n, f). \<exists>df. map_of dfs n = Some df \<and> f \<in> set (argFacts (d_Args (Derivation df)))}"

text \<open>
  What a call of \<open>visit\<close> does to the state: \<open>visited\<close> grows, and \<open>order\<close> is
  extended by the derived facts that became visited, each once.
\<close>

definition extends :: "(string \<times> derivedFactDef) list \<Rightarrow> visitState \<Rightarrow> visitState \<Rightarrow> bool" where
  "extends dfs st st' \<longleftrightarrow>
     fst st \<subseteq> fst st' \<and>
     (\<exists>new. snd st' = snd st @ new \<and> distinct new \<and> set new = (fst st' - fst st) \<inter> fst ` set dfs)"

text \<open>
  An order is closed when every derived fact that an entry refers to stands before that
  entry. The grey facts of a state are the derived facts that are visited and not yet in
  the order: those whose call of \<open>visit\<close> is still running.
\<close>

definition closedOrder :: "(string \<times> derivedFactDef) list \<Rightarrow> string list \<Rightarrow> bool" where
  "closedOrder dfs order \<longleftrightarrow>
     (\<forall>i < length order. \<forall>f. (order ! i, f) \<in> depEdges dfs \<and> f \<in> fst ` set dfs
        \<longrightarrow> f \<in> set (take i order))"

definition gray :: "(string \<times> derivedFactDef) list \<Rightarrow> visitState \<Rightarrow> string set" where
  "gray dfs st = (fst st \<inter> fst ` set dfs) - set (snd st)"

text \<open>The functions \<open>evalDerivation\<close> knows; any other name is its one error.\<close>

definition derivationLibrary :: "string set" where
  "derivationLibrary =
     {''greater_than'', ''greater_or_equal'', ''less_than'', ''equals'', ''and'', ''or'', ''not''}"

text \<open>The derivation \<open>deriveFacts\<close> evaluates for a name of the order.\<close>

definition derivationOf :: "contract \<Rightarrow> string \<Rightarrow> derivation" where
  "derivationOf c name =
     Derivation (case map_of (DerivedFacts c) name of Some d \<Rightarrow> d | None \<Rightarrow> DerivedFactDef0)"

text \<open>The invariant of the state of \<open>neededBaseFacts\<close>.\<close>

definition neededInv :: "contract \<Rightarrow> neededState \<Rightarrow> bool" where
  "neededInv c st \<longleftrightarrow> distinct (fst st) \<and> set (fst st) \<subseteq> fst ` set (Facts c)"

text \<open>What the first loop of \<open>gatherFacts\<close> stores for a name, if anything.\<close>

definition directValue :: "contract \<Rightarrow> (string \<rightharpoonup> val) \<Rightarrow> string \<Rightarrow> val option" where
  "directValue c input name =
     (case map_of (Facts c) name of
        None \<Rightarrow> None
      | Some def \<Rightarrow>
          (if fd_Source def = ''input'' then input name
           else if fd_Source def = ''ctx'' \<and> name = ''user.roles''
           then Some (VList [VStr ''customer''])
           else None))"

text \<open>The goroutines the first loop starts for a list of names.\<close>

definition portFactsOf :: "contract \<Rightarrow> string list \<Rightarrow> (string \<times> factDef) list" where
  "portFactsOf c names =
     concat (map (\<lambda>n. case map_of (Facts c) n of
                          Some d \<Rightarrow> if hasPrefix (fd_Source d) ''port:'' then [(n, d)] else []
                        | None \<Rightarrow> []) names)"

text \<open>
  What a successful gathering leaves in the fact set for a needed name: the value the
  request supplies for an input fact, the fixed roles for the context fact
  \<open>user.roles\<close>, the answer of the port for a port fact; nothing for an input fact
  the request lacks, any other context fact, a port fact whose \<open>Get\<close> failed, or a
  source of no known kind.
\<close>

definition factValue :: "portRegistry \<Rightarrow> contract \<Rightarrow> (string \<rightharpoonup> val) \<Rightarrow> string \<Rightarrow> val option" where
  "factValue ports c input name =
     (case map_of (Facts c) name of
        None \<Rightarrow> None
      | Some def \<Rightarrow>
          (if fd_Source def = ''input'' then input name
           else if fd_Source def = ''ctx'' then
             (if name = ''user.roles'' then Some (VList [VStr ''customer'']) else None)
           else if hasPrefix (fd_Source def) ''port:'' then
             (case port_Get ports (portName (fd_Source def)) name input of
                Inr v \<Rightarrow> Some v
              | Inl reason \<Rightarrow> None)
           else None))"




section \<open>Examples\<close>

text \<open>Example verdicts, as \<open>evaluateRules\<close> builds them for a flag and for a deny rule.\<close>

definition flagVerdictOf :: "string \<Rightarrow> verdict" where
  "flagVerdictOf code =
     \<lparr>v_Type = ''flag'', v_Code = code, v_Reason = [], v_Error = None, v_Queue = []\<rparr>"

definition denyVerdictOf :: "string \<Rightarrow> verdict" where
  "denyVerdictOf code =
     \<lparr>v_Type = ''deny'', v_Code = code, v_Reason = [],
      v_Error = Some (systemError code [] 403), v_Queue = []\<rparr>"

text \<open>
  The floats of the examples are whole numbers below a million in magnitude, which
  \<open>strconv\<close> renders by their integer digits; the examples fix the rendering of floats
  to that.
\<close>

definition wholeFloats :: "nat \<Rightarrow> real \<Rightarrow> string" where
  "wholeFloats bits x = fmt_int \<lfloor>x\<rfloor>"

text \<open>
  Two example graphs. The first is the chain of the test
  \<open>TestDeriveFacts_evaluatesChainInTopologicalOrder\<close>, listed with the dependent fact
  first; the second is a cycle of two facts.
\<close>

definition factArg :: "string \<Rightarrow> derivationArg" where
  "factArg name = \<lparr>da_Fact = name, da_Op = [], da_Value = VNil\<rparr>"

definition valueArg :: "val \<Rightarrow> derivationArg" where
  "valueArg v = \<lparr>da_Fact = [], da_Op = [], da_Value = v\<rparr>"

definition derived :: "string \<Rightarrow> derivationArg list \<Rightarrow> derivedFactDef" where
  "derived fn args = \<lparr>Derivation = \<lparr>d_Fn = fn, d_Args = args\<rparr>\<rparr>"

definition contractOf :: "(string \<times> derivedFactDef) list \<Rightarrow> contract" where
  "contractOf dfs = \<lparr>Facts = [], DerivedFacts = dfs, Rules = [], Operations = [], Entities = []\<rparr>"

definition chainFacts :: "(string \<times> derivedFactDef) list" where
  "chainFacts =
     [(''should_flag'', derived ''not'' [factArg ''is_high_value'']),
      (''is_high_value'', derived ''greater_than'' [factArg ''amount'', valueArg (VFloat64 500)])]"

definition cycleFacts :: "(string \<times> derivedFactDef) list" where
  "cycleFacts =
     [(''a'', derived ''not'' [factArg ''b'']),
      (''b'', derived ''not'' [factArg ''a''])]"

text \<open>
  A contract with the base fact \<open>a\<close>, a structured value, and two derived facts:
  \<open>a.b\<close>, and \<open>d\<close>, which compares the path \<open>a.b.c\<close> with a literal. The fact set
  holds \<open>a\<close> with \<open>deep\<close> at \<open>b.c\<close>.
\<close>

definition shadowFacts :: "(string \<times> derivedFactDef) list" where
  "shadowFacts =
     [(''d'', derived ''equals'' [factArg ''a.b.c'', valueArg (VStr ''deep'')]),
      (''a.b'', derived ''not'' [valueArg (VBool True)])]"

definition shadowContract :: "(string \<times> derivedFactDef) list \<Rightarrow> contract" where
  "shadowContract dfs =
     \<lparr>Facts = [(''a'', \<lparr>fd_Source = ''input'', fd_Required = True, fd_OnMissing = []\<rparr>)],
      DerivedFacts = dfs, Rules = [], Operations = [], Entities = []\<rparr>"

definition shadowBase :: factSet where
  "shadowBase = NewFactSet(''a'' \<mapsto> VMap [(''b'', VMap [(''c'', VStr ''deep'')])])"

text \<open>
  An example engine. The ports are \<open>mockPorts\<close> of the tests with no function set:
  \<open>Get\<close> answers \<open>nil\<close> and \<open>Execute\<close> an empty map. The runtime renders the floats
  of the examples, quotes a string that needs no escape, and iterates in the order it is
  given. The
  contract has one rule, a \<open>require\<close> on an unverified customer, for its one operation.
\<close>

definition mockPorts :: portRegistry where
  "mockPorts = \<lparr>port_Get = (\<lambda>port fname input. Inr VNil),
                 port_Execute = (\<lambda>port operation input. Inr (Some []))\<rparr>"

definition plainRuntime :: goRuntime where
  "plainRuntime = \<lparr>fmtFloat = wholeFloats, quote = (\<lambda>s. CHR 0x22 # s @ [CHR 0x22]),
                    rangeRank = (\<lambda>name. 0), recvRank = (\<lambda>name. 0)\<rparr>"

definition requireRule :: ruleDef where
  "requireRule =
     \<lparr>r_ID = ''kyc-rule'', r_AppliesTo = [],
      r_When = leaf ''customer.status'' (VStr ''unverified'') VNil VNil [],
      r_Verdict = \<lparr>vd_Deny = None, vd_Escalate = None,
                    vd_Require = Some \<lparr>rv_Conditions = [''kyc''], rv_Reason = ''identity check''\<rparr>,
                    vd_Flag = None\<rparr>\<rparr>"

definition requireContract :: contract where
  "requireContract =
     \<lparr>Facts = [(''customer.status'', \<lparr>fd_Source = ''input'', fd_Required = False, fd_OnMissing = []\<rparr>)],
      DerivedFacts = [],
      Rules = [requireRule],
      Operations = [(''testOp'', \<lparr>o_ConstrainedBy = [''kyc-rule''], o_Transitions = []\<rparr>)],
      Entities = []\<rparr>"

definition requireEngine :: engine where
  "requireEngine = LoadContract (NewEngine mockPorts) (Some requireContract) ''etag-1''"

definition requireRequest :: "bool \<Rightarrow> request" where
  "requireRequest dry =
     \<lparr>Operation = ''testOp'', Input = [''customer.status'' \<mapsto> VStr ''unverified''],
      DryRun = dry, ContractETag = []\<rparr>"

definition requireVerdictOf :: verdict where
  "requireVerdictOf = \<lparr>v_Type = ''require'', v_Code = [], v_Reason = ''identity check'',
      v_Error = None, v_Queue = []\<rparr>"

text \<open>A contract whose one rule needs a context fact other than \<open>user.roles\<close>.\<close>

definition ctxContract :: contract where
  "ctxContract =
     \<lparr>Facts = [(''user.id'', \<lparr>fd_Source = ''ctx'', fd_Required = True, fd_OnMissing = []\<rparr>)],
      DerivedFacts = [],
      Rules = [\<lparr>r_ID = ''id-rule'', r_AppliesTo = [],
                r_When = leaf ''user.id'' (VStr ''u1'') VNil VNil [],
                r_Verdict = \<lparr>vd_Deny = None, vd_Escalate = None, vd_Require = None,
                              vd_Flag = Some \<lparr>fv_Code = ''KNOWN'', fv_Reason = []\<rparr>\<rparr>\<rparr>],
      Operations = [(''testOp'', \<lparr>o_ConstrainedBy = [''id-rule''], o_Transitions = []\<rparr>)],
      Entities = []\<rparr>"

text \<open>The same contract with the fact declared input-sourced.\<close>

definition ctxAsInputContract :: contract where
  "ctxAsInputContract =
     ctxContract\<lparr>Facts := [(''user.id'', \<lparr>fd_Source = ''input'', fd_Required = True, fd_OnMissing = []\<rparr>)]\<rparr>"





section \<open>Properties of verdict resolution\<close>

text \<open>
  The loop started with a current best \<open>b\<close> keeps \<open>b\<close> unless a later verdict has a
  strictly higher priority; then it ends with the first verdict of the highest priority.
\<close>

lemma resolveVerdicts_loop_char:
  "\<exists>r. resolveVerdicts_loop vs (Some b) = Some r \<and>
     ((r = b \<and> (\<forall>v \<in> set vs. prio v \<le> prio b)) \<or>
      (\<exists>i < length vs. r = vs ! i \<and> prio b < prio (vs ! i) \<and>
         (\<forall>j < length vs. prio (vs ! j) \<le> prio (vs ! i)) \<and>
         (\<forall>j < i. prio (vs ! j) < prio (vs ! i))))"
proof (induction vs arbitrary: b)
  case Nil
  then show ?case by simp
next
  case (Cons a vs)
  show ?case
  proof (cases "prio b < prio a")
    case True
    from Cons.IH[of a] obtain r where r: "resolveVerdicts_loop vs (Some a) = Some r"
      and d: "(r = a \<and> (\<forall>v \<in> set vs. prio v \<le> prio a)) \<or>
      (\<exists>i < length vs. r = vs ! i \<and> prio a < prio (vs ! i) \<and>
         (\<forall>j < length vs. prio (vs ! j) \<le> prio (vs ! i)) \<and>
         (\<forall>j < i. prio (vs ! j) < prio (vs ! i)))" by blast
    from d show ?thesis
    proof
      assume h: "r = a \<and> (\<forall>v \<in> set vs. prio v \<le> prio a)"
      have "\<forall>j < length (a # vs). prio ((a # vs) ! j) \<le> prio a"
        using h by (auto simp: nth_Cons' )
      then show ?thesis using True r h
        by (intro exI[of _ r]) (auto intro!: exI[of _ 0])
    next
      assume "\<exists>i < length vs. r = vs ! i \<and> prio a < prio (vs ! i) \<and>
         (\<forall>j < length vs. prio (vs ! j) \<le> prio (vs ! i)) \<and>
         (\<forall>j < i. prio (vs ! j) < prio (vs ! i))"
      then obtain i where i: "i < length vs" "r = vs ! i" "prio a < prio (vs ! i)"
        "\<forall>j < length vs. prio (vs ! j) \<le> prio (vs ! i)" "\<forall>j < i. prio (vs ! j) < prio (vs ! i)"
        by blast
      have 1: "\<forall>j < length (a # vs). prio ((a # vs) ! j) \<le> prio ((a # vs) ! Suc i)"
        using i by (auto simp: nth_Cons')
      have 2: "\<forall>j < Suc i. prio ((a # vs) ! j) < prio ((a # vs) ! Suc i)"
        using i by (auto simp: nth_Cons' less_Suc_eq_0_disj)
      have 3: "prio b < prio ((a # vs) ! Suc i)" using i True by simp
      show ?thesis using True r i(1,2) 1 2 3
        by (intro exI[of _ r]) (auto intro!: exI[of _ "Suc i"])
    qed
  next
    case False
    from Cons.IH[of b] obtain r where r: "resolveVerdicts_loop vs (Some b) = Some r"
      and d: "(r = b \<and> (\<forall>v \<in> set vs. prio v \<le> prio b)) \<or>
      (\<exists>i < length vs. r = vs ! i \<and> prio b < prio (vs ! i) \<and>
         (\<forall>j < length vs. prio (vs ! j) \<le> prio (vs ! i)) \<and>
         (\<forall>j < i. prio (vs ! j) < prio (vs ! i)))" by blast
    from d show ?thesis
    proof
      assume h: "r = b \<and> (\<forall>v \<in> set vs. prio v \<le> prio b)"
      then show ?thesis using False r by auto
    next
      assume "\<exists>i < length vs. r = vs ! i \<and> prio b < prio (vs ! i) \<and>
         (\<forall>j < length vs. prio (vs ! j) \<le> prio (vs ! i)) \<and>
         (\<forall>j < i. prio (vs ! j) < prio (vs ! i))"
      then obtain i where i: "i < length vs" "r = vs ! i" "prio b < prio (vs ! i)"
        "\<forall>j < length vs. prio (vs ! j) \<le> prio (vs ! i)" "\<forall>j < i. prio (vs ! j) < prio (vs ! i)"
        by blast
      have 1: "\<forall>j < length (a # vs). prio ((a # vs) ! j) \<le> prio ((a # vs) ! Suc i)"
        using i False by (auto simp: nth_Cons')
      have 2: "\<forall>j < Suc i. prio ((a # vs) ! j) < prio ((a # vs) ! Suc i)"
        using i False by (auto simp: nth_Cons' less_Suc_eq_0_disj)
      have 3: "prio b < prio ((a # vs) ! Suc i)" using i by simp
      show ?thesis using False r i(1,2) 1 2 3
        by (intro exI[of _ r]) (auto intro!: exI[of _ "Suc i"])
    qed
  qed
qed

lemma priority_le_4: "priority t \<le> 4" by (simp add: priority_def)

lemma priority_eq_4: "priority t = 4 \<longleftrightarrow> t = ''deny''" by (simp add: priority_def)

text \<open>
  C3, as the code has it. \<open>resolveVerdicts\<close> returns one verdict, not a collection: nothing
  for the empty list, and otherwise the verdict at the first index whose type has the
  highest priority present (every verdict has at most its priority, every earlier verdict
  strictly less). So it returns a \<open>deny\<close> whenever a \<open>deny\<close> is present, however many
  verdicts of lower priority matched; of several verdicts of the winning type it returns
  the first in the list only.
\<close>

theorem resolveVerdicts_first_of_highest:
  "(verdicts = [] \<longrightarrow> resolveVerdicts verdicts = None) \<and>
   (verdicts \<noteq> [] \<longrightarrow>
      (\<exists>i < length verdicts. resolveVerdicts verdicts = Some (verdicts ! i) \<and>
         (\<forall>j < length verdicts. prio (verdicts ! j) \<le> prio (verdicts ! i)) \<and>
         (\<forall>j < i. prio (verdicts ! j) < prio (verdicts ! i)))) \<and>
   ((\<exists>v \<in> set verdicts. v_Type v = ''deny'') \<longrightarrow>
      (\<exists>b. resolveVerdicts verdicts = Some b \<and> v_Type b = ''deny''))"
proof -
  have A: "\<exists>i < length verdicts. resolveVerdicts verdicts = Some (verdicts ! i) \<and>
         (\<forall>j < length verdicts. prio (verdicts ! j) \<le> prio (verdicts ! i)) \<and>
         (\<forall>j < i. prio (verdicts ! j) < prio (verdicts ! i))" if ne: "verdicts \<noteq> []"
  proof -
    obtain a vs where v: "verdicts = a # vs" using ne by (cases verdicts) auto
    from resolveVerdicts_loop_char[of vs a] obtain r where r: "resolveVerdicts_loop vs (Some a) = Some r"
      and d: "(r = a \<and> (\<forall>v \<in> set vs. prio v \<le> prio a)) \<or>
      (\<exists>i < length vs. r = vs ! i \<and> prio a < prio (vs ! i) \<and>
         (\<forall>j < length vs. prio (vs ! j) \<le> prio (vs ! i)) \<and>
         (\<forall>j < i. prio (vs ! j) < prio (vs ! i)))" by blast
    have rv: "resolveVerdicts verdicts = Some r" using r v by (simp add: resolveVerdicts_def)
    from d show ?thesis
    proof
      assume h: "r = a \<and> (\<forall>v \<in> set vs. prio v \<le> prio a)"
      have "\<forall>j < length (a # vs). prio ((a # vs) ! j) \<le> prio a"
        using h by (auto simp: nth_Cons')
      then show ?thesis using rv h v by (auto intro!: exI[of _ 0])
    next
      assume "\<exists>i < length vs. r = vs ! i \<and> prio a < prio (vs ! i) \<and>
         (\<forall>j < length vs. prio (vs ! j) \<le> prio (vs ! i)) \<and>
         (\<forall>j < i. prio (vs ! j) < prio (vs ! i))"
      then obtain i where i: "i < length vs" "r = vs ! i" "prio a < prio (vs ! i)"
        "\<forall>j < length vs. prio (vs ! j) \<le> prio (vs ! i)" "\<forall>j < i. prio (vs ! j) < prio (vs ! i)"
        by blast
      have 1: "\<forall>j < length (a # vs). prio ((a # vs) ! j) \<le> prio ((a # vs) ! Suc i)"
        using i by (auto simp: nth_Cons')
      have 2: "\<forall>j < Suc i. prio ((a # vs) ! j) < prio ((a # vs) ! Suc i)"
        using i by (auto simp: nth_Cons' less_Suc_eq_0_disj)
      show ?thesis using rv i(1,2) 1 2 v
        by (auto intro!: exI[of _ "Suc i"])
    qed
  qed
  have B: "\<exists>b. resolveVerdicts verdicts = Some b \<and> v_Type b = ''deny''"
    if "\<exists>v \<in> set verdicts. v_Type v = ''deny''"
  proof -
    from that obtain v where v: "v \<in> set verdicts" "v_Type v = ''deny''" by blast
    then have ne: "verdicts \<noteq> []" by auto
    from A[OF ne] obtain i where i: "i < length verdicts" "resolveVerdicts verdicts = Some (verdicts ! i)"
      "\<forall>j < length verdicts. prio (verdicts ! j) \<le> prio (verdicts ! i)" by blast
    from v(1) obtain k where k: "k < length verdicts" "verdicts ! k = v" by (auto simp: in_set_conv_nth)
    then have "prio v \<le> prio (verdicts ! i)" using i(3) by auto
    then have "prio (verdicts ! i) = 4" using v(2) priority_le_4[of "v_Type (verdicts ! i)"]
      by (simp add: priority_def)
    then show ?thesis using i(2) by (simp add: priority_eq_4)
  qed
  show ?thesis using A B by (auto simp: resolveVerdicts_def)
qed

theorem resolveVerdicts_first_of_highest_witness:
  "[flagVerdictOf ''LARGE'', denyVerdictOf ''FUNDS'', denyVerdictOf ''CLOSED''] \<noteq> [] \<and>
   (\<exists>v \<in> set [flagVerdictOf ''LARGE'', denyVerdictOf ''FUNDS'', denyVerdictOf ''CLOSED''].
      v_Type v = ''deny'') \<and>
   (\<exists>b. resolveVerdicts [flagVerdictOf ''LARGE'', denyVerdictOf ''FUNDS'', denyVerdictOf ''CLOSED'']
          = Some b \<and> v_Type b = ''deny'')"
  using resolveVerdicts_first_of_highest
    [of "[flagVerdictOf ''LARGE'', denyVerdictOf ''FUNDS'', denyVerdictOf ''CLOSED'']"]
  by (simp add: denyVerdictOf_def)

text \<open>
  C3 as stated fails: of two matched flags, which share the winning type, the result holds
  the first and not the second.
\<close>

theorem resolveVerdicts_keeps_one_counterexample:
  "resolveVerdicts [flagVerdictOf ''A'', flagVerdictOf ''B''] = Some (flagVerdictOf ''A'') \<and>
   v_Type (flagVerdictOf ''B'') = v_Type (flagVerdictOf ''A'') \<and>
   flagVerdictOf ''B'' \<notin> set_option (resolveVerdicts [flagVerdictOf ''A'', flagVerdictOf ''B''])"
  by (simp add: resolveVerdicts_def flagVerdictOf_def priority_def)

section \<open>Properties of condition evaluation\<close>

lemma fmt_int_500: "fmt_int 500 = ''500''"
  by code_simp

text \<open>
  C10. \<open>equals\<close> compares the \<open>%v\<close> renderings of its operands: in \<open>applyOp\<close>, hence
  in a leaf with \<open>equals\<close>, in a leaf with \<open>in\<close> (some element of the list renders as the
  fact does) and in the \<open>equals\<close> derivation. So the integer 500 equals the string
  \<open>500\<close> (and the float does, if \<open>strconv\<close> renders it so), \<open>nil\<close> equals the string
  \<open><nil>\<close>, and a leaf comparing an absent fact with that string holds.
\<close>

theorem equals_is_equality_of_rendering:
  "applyOp ff ''equals'' a b = (fmt_v ff a = fmt_v ff b) \<and>
   (fname \<noteq> [] \<and> eq \<noteq> VNil \<longrightarrow>
      evalCondition ff (leaf fname eq gt lt inn) facts
        = (fmt_v ff (fst (GetPath facts fname)) = fmt_v ff eq)) \<and>
   (fname \<noteq> [] \<and> inn \<noteq> [] \<longrightarrow>
      evalCondition ff (leaf fname VNil VNil VNil inn) facts
        = (\<exists>v \<in> set inn. fmt_v ff (fst (GetPath facts fname)) = fmt_v ff v)) \<and>
   (2 \<le> length args \<longrightarrow>
      evalDerivation ff \<lparr>d_Fn = ''equals'', d_Args = args\<rparr> facts
        = Inr (VBool (fmt_v ff (fst (getArg facts (args ! 0)))
                      = fmt_v ff (fst (getArg facts (args ! 1)))))) \<and>
   applyOp ff ''equals'' (VInt 500) (VStr ''500'') \<and>
   (ff 64 500 = ''500'' \<longrightarrow> applyOp ff ''equals'' (VFloat64 500) (VStr ''500'')) \<and>
   applyOp ff ''equals'' VNil (VStr ''<nil>'') \<and>
   (fname \<noteq> [] \<and> GetPath facts fname = (VNil, False) \<longrightarrow>
      evalCondition ff (leaf fname (VStr ''<nil>'') gt lt inn) facts)"
  by (simp add: applyOp.simps evalCondition.simps leaf_def evalDerivation_def fmt_int_500)

theorem equals_is_equality_of_rendering_witness:
  "''x'' \<noteq> [] \<and> VStr ''<nil>'' \<noteq> VNil \<and> [VNil] \<noteq> [] \<and>
   GetPath Map.empty ''x'' = (VNil, False) \<and>
   (2::nat) \<le> length [\<lparr>da_Fact = [], da_Op = [], da_Value = VInt 500\<rparr>,
                       \<lparr>da_Fact = [], da_Op = [], da_Value = VStr ''500''\<rparr>] \<and>
   wholeFloats 64 500 = ''500'' \<and>
   applyOp wholeFloats ''equals'' (VFloat64 500) (VStr ''500'') \<and>
   evalCondition wholeFloats (leaf ''x'' (VStr ''<nil>'') VNil VNil [VNil]) Map.empty \<and>
   evalCondition wholeFloats (leaf ''x'' VNil VNil VNil [VNil]) Map.empty \<and>
   evalDerivation wholeFloats \<lparr>d_Fn = ''equals'', d_Args =
       [\<lparr>da_Fact = [], da_Op = [], da_Value = VInt 500\<rparr>,
        \<lparr>da_Fact = [], da_Op = [], da_Value = VStr ''500''\<rparr>]\<rparr> Map.empty = Inr (VBool True)"
  using equals_is_equality_of_rendering
    [of wholeFloats VNil VNil "''x''" "VStr ''<nil>''" VNil VNil "[VNil]" Map.empty
      "[\<lparr>da_Fact = [], da_Op = [], da_Value = VInt 500\<rparr>,
        \<lparr>da_Fact = [], da_Op = [], da_Value = VStr ''500''\<rparr>]"]
  by (simp add: GetPath_def getArg_def fmt_int_500 wholeFloats_def)

text \<open>
  Where a leaf on an absent fact does evaluate to false: always for \<open>greater_than\<close> and
  \<open>less_than\<close>, and for \<open>equals\<close> and \<open>in\<close> as long as no literal renders as
  \<open><nil>\<close>.
\<close>

lemma absent_leaf_false:
  assumes "fname \<noteq> []" "fst (GetPath facts fname) = VNil"
  shows "gt \<noteq> VNil \<Longrightarrow> \<not> evalCondition ff (leaf fname VNil gt lt inn) facts"
    and "lt \<noteq> VNil \<Longrightarrow> \<not> evalCondition ff (leaf fname VNil VNil lt inn) facts"
    and "eq \<noteq> VNil \<Longrightarrow> fmt_v ff eq \<noteq> ''<nil>''
          \<Longrightarrow> \<not> evalCondition ff (leaf fname eq gt lt inn) facts"
    and "inn \<noteq> [] \<Longrightarrow> \<forall>v \<in> set inn. fmt_v ff v \<noteq> ''<nil>''
          \<Longrightarrow> \<not> evalCondition ff (leaf fname VNil VNil VNil inn) facts"
  using assms by (auto simp: evalCondition.simps leaf_def applyOp.simps)

text \<open>
  C8, at the input where the code departs from it: no fact is stored, so
  \<open>customer.status\<close> is absent, and the leaf \<open>customer.status equals "<nil>"\<close>
  evaluates to true, where the claim, the comment in \<open>gatherFacts\<close> and the test
  \<open>TestEvalCondition_missingFactReturnsFalseForEquals\<close> expect false.
\<close>

theorem absent_fact_equals_nil_string:
  "GetPath NewFactSet ''customer.status'' = (VNil, False) \<and>
   evalCondition ff (leaf ''customer.status'' (VStr ''<nil>'') VNil VNil []) NewFactSet"
  by (simp add: GetPath_def NewFactSet_def evalCondition.simps leaf_def applyOp.simps)

section \<open>Properties of the derivation order\<close>

lemma extends_refl: "extends dfs st st"
  by (simp add: extends_def)

lemma extends_trans:
  assumes "extends dfs st1 st2" "extends dfs st2 st3"
  shows "extends dfs st1 st3"
proof -
  from assms(1) obtain n1 where n1: "fst st1 \<subseteq> fst st2" "snd st2 = snd st1 @ n1" "distinct n1"
    "set n1 = (fst st2 - fst st1) \<inter> fst ` set dfs" by (auto simp: extends_def)
  from assms(2) obtain n2 where n2: "fst st2 \<subseteq> fst st3" "snd st3 = snd st2 @ n2" "distinct n2"
    "set n2 = (fst st3 - fst st2) \<inter> fst ` set dfs" by (auto simp: extends_def)
  have "snd st3 = snd st1 @ (n1 @ n2)" using n1 n2 by simp
  moreover have "distinct (n1 @ n2)" using n1 n2 by auto
  moreover have "set (n1 @ n2) = (fst st3 - fst st1) \<inter> fst ` set dfs" using n1 n2 by auto
  moreover have "fst st1 \<subseteq> fst st3" using n1 n2 by auto
  ultimately show ?thesis unfolding extends_def by blast
qed

lemma visit_extends:
  "extends dfs st (visit dfs name st) \<and> name \<in> fst (visit dfs name st)"
  "extends dfs st (visit_args dfs args st) \<and> set (argFacts args) \<subseteq> fst (visit_args dfs args st)"
proof (induction dfs name st and dfs args st rule: visit_visit_args.induct)
  case (1 dfs name visited order)
  show ?case
  proof (cases "name \<in> visited")
    case True
    then show ?thesis by (simp add: visit.simps extends_refl)
  next
    case nv: False
    show ?thesis
    proof (cases "map_of dfs name")
      case None
      then have "name \<notin> fst ` set dfs" by (simp add: map_of_eq_None_iff)
      then show ?thesis using nv None by (auto simp: visit.simps extends_def)
    next
      case (Some df)
      then have k: "name \<in> fst ` set dfs" by (metis map_of_eq_None_iff option.distinct(1))
      let ?r = "visit_args dfs (d_Args (Derivation df)) (insert name visited, order)"
      from 1[OF nv Some] have e: "extends dfs (insert name visited, order) ?r" by simp
      then obtain new where new: "insert name visited \<subseteq> fst ?r" "snd ?r = order @ new" "distinct new"
        "set new = (fst ?r - insert name visited) \<inter> fst ` set dfs" by (auto simp: extends_def)
      have v: "visit dfs name (visited, order) = (fst ?r, snd ?r @ [name])"
        using nv Some by (simp add: visit.simps split: prod.splits)
      have 1: "snd ?r @ [name] = order @ (new @ [name])" using new by simp
      have 2: "distinct (new @ [name])" using new by auto
      have 3: "set (new @ [name]) = (fst ?r - visited) \<inter> fst ` set dfs"
        using new k nv by auto
      have 4: "visited \<subseteq> fst ?r" "name \<in> fst ?r" using new by auto
      have "extends dfs (visited, order) (fst ?r, snd ?r @ [name])"
        unfolding extends_def fst_conv snd_conv using 1 2 3 4(1) by blast
      then show ?thesis using v 4(2) by simp
    qed
  qed
next
  case (2 dfs st)
  then show ?case by (simp add: extends_refl argFacts_def)
next
  case (3 dfs arg args st)
  let ?st' = "if da_Fact arg \<noteq> [] then visit dfs (da_Fact arg) st else st"
  have a: "extends dfs st ?st'" using 3(1) by (auto simp: extends_refl)
  have b: "extends dfs ?st' (visit_args dfs args ?st')" using 3(2) by simp
  have c: "set (argFacts args) \<subseteq> fst (visit_args dfs args ?st')" using 3(2) by simp
  have d: "da_Fact arg \<noteq> [] \<Longrightarrow> da_Fact arg \<in> fst ?st'" using 3(1) by simp
  have "fst ?st' \<subseteq> fst (visit_args dfs args ?st')" using b by (simp add: extends_def)
  then have "set (argFacts (arg # args)) \<subseteq> fst (visit_args dfs args ?st')"
    using c d by (auto simp: argFacts_def)
  then show ?case using extends_trans[OF a b] by simp
qed

lemma foldl_visit_extends:
  "extends dfs st (foldl (\<lambda>st name. visit dfs name st) st names) \<and>
   set names \<subseteq> fst (foldl (\<lambda>st name. visit dfs name st) st names)"
proof (induction names arbitrary: st)
  case Nil
  then show ?case by (simp add: extends_refl)
next
  case (Cons n names)
  let ?st' = "visit dfs n st"
  let ?r = "foldl (\<lambda>st name. visit dfs name st) ?st' names"
  have a: "extends dfs st ?st'" "n \<in> fst ?st'" using visit_extends(1)[of dfs st n] by auto
  have b: "extends dfs ?st' ?r" "set names \<subseteq> fst ?r" using Cons.IH[of ?st'] by auto
  have "fst ?st' \<subseteq> fst ?r" using b(1) by (simp add: extends_def)
  then show ?case using extends_trans[OF a(1) b(1)] a(2) b(2) by auto
qed

lemma topoSort_distinct: "distinct (topoSort dfs)"
  and topoSort_set: "set (topoSort dfs) = fst ` set dfs"
proof -
  let ?r = "foldl (\<lambda>st name. visit dfs name st) ({}, []) (map fst dfs)"
  from foldl_visit_extends[of dfs "({}, [])" "map fst dfs"]
  have e: "extends dfs ({}, []) ?r" and k: "fst ` set dfs \<subseteq> fst ?r" by auto
  from e obtain new where new: "snd ?r = new" "distinct new" "set new = fst ?r \<inter> fst ` set dfs"
    by (auto simp: extends_def)
  show "distinct (topoSort dfs)" using new by (simp add: topoSort_def)
  show "set (topoSort dfs) = fst ` set dfs" using new k by (auto simp: topoSort_def)
qed

lemma extends_gray:
  assumes "extends dfs st st'" "set (snd st) \<subseteq> fst st"
  shows "set (snd st') \<subseteq> fst st'" "gray dfs st' = gray dfs st" "set (snd st) \<subseteq> set (snd st')"
proof -
  from assms(1) obtain new where new: "fst st \<subseteq> fst st'" "snd st' = snd st @ new"
    "set new = (fst st' - fst st) \<inter> fst ` set dfs" by (auto simp: extends_def)
  show "set (snd st') \<subseteq> fst st'" using new assms(2) by auto
  show "gray dfs st' = gray dfs st" using new assms(2) unfolding gray_def by auto
  show "set (snd st) \<subseteq> set (snd st')" using new by auto
qed

lemma closedOrder_snoc:
  assumes "closedOrder dfs order"
    and "\<forall>f. (n, f) \<in> depEdges dfs \<and> f \<in> fst ` set dfs \<longrightarrow> f \<in> set order"
  shows "closedOrder dfs (order @ [n])"
  unfolding closedOrder_def
proof (intro allI impI)
  fix i f
  assume i: "i < length (order @ [n])"
    and e: "((order @ [n]) ! i, f) \<in> depEdges dfs \<and> f \<in> fst ` set dfs"
  show "f \<in> set (take i (order @ [n]))"
  proof (cases "i < length order")
    case True
    then have "(order ! i, f) \<in> depEdges dfs" using e by (simp add: nth_append)
    then have "f \<in> set (take i order)" using assms(1) True e by (simp add: closedOrder_def)
    then show ?thesis using True by simp
  next
    case False
    then have "i = length order" using i by simp
    then show ?thesis using assms(2) e by simp
  qed
qed

text \<open>
  On an acyclic graph a call of \<open>visit\<close> that is reached from every grey fact keeps the
  order closed and leaves its fact in the order; the loop over the arguments of \<open>p\<close>
  leaves every derived fact that \<open>p\<close> refers to in the order.
\<close>

lemma visit_closedOrder:
  "acyclic (depEdges dfs) \<Longrightarrow> set (snd st) \<subseteq> fst st \<Longrightarrow> closedOrder dfs (snd st) \<Longrightarrow>
   (\<forall>g \<in> gray dfs st. (g, name) \<in> (depEdges dfs)\<^sup>+) \<Longrightarrow>
   closedOrder dfs (snd (visit dfs name st)) \<and>
   (name \<in> fst ` set dfs \<longrightarrow> name \<in> set (snd (visit dfs name st)))"
  "acyclic (depEdges dfs) \<Longrightarrow> set (snd st) \<subseteq> fst st \<Longrightarrow> closedOrder dfs (snd st) \<Longrightarrow>
   (\<forall>g \<in> gray dfs st. (g, p) \<in> (depEdges dfs)\<^sup>*) \<Longrightarrow>
   (\<forall>f \<in> set (argFacts args). (p, f) \<in> depEdges dfs) \<Longrightarrow>
   closedOrder dfs (snd (visit_args dfs args st)) \<and>
   (\<forall>f \<in> set (argFacts args). f \<in> fst ` set dfs \<longrightarrow> f \<in> set (snd (visit_args dfs args st)))"
proof (induction dfs name st and dfs args st arbitrary: and p rule: visit_visit_args.induct)
  case (1 dfs name visited order)
  have ng: "name \<notin> gray dfs (visited, order)"
  proof
    assume "name \<in> gray dfs (visited, order)"
    then have "(name, name) \<in> (depEdges dfs)\<^sup>+" using 1(5) by blast
    then show False using 1(2) by (simp add: acyclic_def)
  qed
  show ?case
  proof (cases "name \<in> visited")
    case True
    then have "name \<in> fst ` set dfs \<longrightarrow> name \<in> set order"
      using ng by (auto simp: gray_def)
    then show ?thesis using True 1(4) by (simp add: visit.simps)
  next
    case nv: False
    show ?thesis
    proof (cases "map_of dfs name")
      case None
      then have "name \<notin> fst ` set dfs" by (simp add: map_of_eq_None_iff)
      then show ?thesis using nv None 1(4) by (simp add: visit.simps)
    next
      case (Some df)
      let ?st1 = "(insert name visited, order)"
      let ?r = "visit_args dfs (d_Args (Derivation df)) ?st1"
      have v: "visit dfs name (visited, order) = (fst ?r, snd ?r @ [name])"
        using nv Some by (simp add: visit.simps split: prod.splits)
      have s1: "set (snd ?st1) \<subseteq> fst ?st1" using 1(3) by auto
      have c1: "closedOrder dfs (snd ?st1)" using 1(4) by simp
      have g1: "\<forall>g \<in> gray dfs ?st1. (g, name) \<in> (depEdges dfs)\<^sup>*"
      proof
        fix g assume "g \<in> gray dfs ?st1"
        then have "g = name \<or> g \<in> gray dfs (visited, order)" by (auto simp: gray_def)
        then show "(g, name) \<in> (depEdges dfs)\<^sup>*" using 1(5) by auto
      qed
      have e1: "\<forall>f \<in> set (argFacts (d_Args (Derivation df))). (name, f) \<in> depEdges dfs"
        using Some by (auto simp: depEdges_def)
      from 1(1)[OF nv Some 1(2) s1 c1 g1 e1]
      have c: "closedOrder dfs (snd ?r)"
        and a: "\<forall>f \<in> set (argFacts (d_Args (Derivation df))). f \<in> fst ` set dfs \<longrightarrow> f \<in> set (snd ?r)"
        by auto
      have "\<forall>f. (name, f) \<in> depEdges dfs \<and> f \<in> fst ` set dfs \<longrightarrow> f \<in> set (snd ?r)"
        using a Some by (auto simp: depEdges_def)
      then have "closedOrder dfs (snd ?r @ [name])" using c by (rule closedOrder_snoc[rotated])
      then show ?thesis using v by simp
    qed
  qed
next
  case (2 dfs st)
  then show ?case by (simp add: argFacts_def)
next
  case (3 dfs arg args st)
  let ?st' = "if da_Fact arg \<noteq> [] then visit dfs (da_Fact arg) st else st"
  have ext: "extends dfs st ?st'" using visit_extends(1)[of dfs st "da_Fact arg"] by (auto simp: extends_refl)
  note eg = extends_gray[OF ext 3(4)]
  have A: "closedOrder dfs (snd ?st') \<and>
      (da_Fact arg \<noteq> [] \<longrightarrow> da_Fact arg \<in> fst ` set dfs \<longrightarrow> da_Fact arg \<in> set (snd ?st'))"
  proof (cases "da_Fact arg \<noteq> []")
    case True
    then have edge: "(p, da_Fact arg) \<in> depEdges dfs" using 3(7) by (simp add: argFacts_def)
    have "\<forall>g \<in> gray dfs st. (g, da_Fact arg) \<in> (depEdges dfs)\<^sup>+"
      using 3(6) edge by (meson rtrancl_into_trancl1)
    from 3(1)[OF True 3(3) 3(4) 3(5) this] show ?thesis using True by simp
  next
    case False
    then show ?thesis using 3(5) by simp
  qed
  have g': "\<forall>g \<in> gray dfs ?st'. (g, p) \<in> (depEdges dfs)\<^sup>*" using eg(2) 3(6) by simp
  have e': "\<forall>f \<in> set (argFacts args). (p, f) \<in> depEdges dfs" using 3(7) by (auto simp: argFacts_def)
  from 3(2)[OF 3(3) eg(1) _ g' e'] A
  have B: "closedOrder dfs (snd (visit_args dfs args ?st'))"
    "\<forall>f \<in> set (argFacts args). f \<in> fst ` set dfs \<longrightarrow> f \<in> set (snd (visit_args dfs args ?st'))"
    by auto
  have ext2: "extends dfs ?st' (visit_args dfs args ?st')" using visit_extends(2) by blast
  have sub: "set (snd ?st') \<subseteq> set (snd (visit_args dfs args ?st'))"
    using extends_gray(3)[OF ext2 eg(1)] .
  have "\<forall>f \<in> set (argFacts (arg # args)). f \<in> fst ` set dfs \<longrightarrow> f \<in> set (snd (visit_args dfs args ?st'))"
    using A B(2) sub by (auto simp: argFacts_def)
  then show ?case using B(1) by simp
qed

lemma foldl_visit_closedOrder:
  assumes "acyclic (depEdges dfs)"
  shows "set (snd st) \<subseteq> fst st \<Longrightarrow> closedOrder dfs (snd st) \<Longrightarrow> gray dfs st = {} \<Longrightarrow>
     closedOrder dfs (snd (foldl (\<lambda>st name. visit dfs name st) st names))"
proof (induction names arbitrary: st)
  case Nil
  then show ?case by simp
next
  case (Cons n names)
  let ?st' = "visit dfs n st"
  have ext: "extends dfs st ?st'" using visit_extends(1) by blast
  note eg = extends_gray[OF ext Cons.prems(1)]
  have "closedOrder dfs (snd ?st')"
    using visit_closedOrder(1)[OF assms Cons.prems(1,2), of n] Cons.prems(3) by simp
  then have "closedOrder dfs (snd (foldl (\<lambda>st name. visit dfs name st) ?st' names))"
    using Cons.IH[of ?st'] eg Cons.prems(3) by simp
  then show ?case by simp
qed

lemma topoSort_closedOrder:
  "acyclic (depEdges dfs) \<Longrightarrow> closedOrder dfs (topoSort dfs)"
  unfolding topoSort_def
  by (rule foldl_visit_closedOrder) (simp_all add: closedOrder_def gray_def)

lemma evalDerivation_error:
  "(\<exists>e. evalDerivation ff d facts = Inl e) = (d_Fn d \<notin> derivationLibrary)"
  by (auto simp: evalDerivation_def derivationLibrary_def split: val.splits)

lemma deriveFacts_loop_error:
  "(\<exists>e. deriveFacts_loop ff c names facts = Inl e)
     = (\<exists>n \<in> set names. d_Fn (derivationOf c n) \<notin> derivationLibrary)"
proof (induction names arbitrary: facts)
  case Nil
  then show ?case by simp
next
  case (Cons n names)
  show ?case
  proof (cases "evalDerivation ff (derivationOf c n) facts")
    case (Inl e)
    then have "d_Fn (derivationOf c n) \<notin> derivationLibrary"
      using evalDerivation_error[of ff "derivationOf c n" facts] by auto
    then show ?thesis using Inl by (simp add: derivationOf_def)
  next
    case (Inr v)
    then have "d_Fn (derivationOf c n) \<in> derivationLibrary"
      using evalDerivation_error[of ff "derivationOf c n" facts] by auto
    then show ?thesis using Inr Cons.IH[of "Set_fact facts n v"] by (simp add: derivationOf_def)
  qed
qed

lemma deriveFacts_loop_dom:
  "deriveFacts_loop ff c names facts = Inr facts' \<Longrightarrow> dom facts' = dom facts \<union> set names"
proof (induction names arbitrary: facts)
  case Nil
  then show ?case by simp
next
  case (Cons n names)
  then show ?case
    by (auto simp: Let_def Set_fact_def split: sum.splits)
qed

lemma depEdges_chainFacts:
  "depEdges chainFacts = {(''should_flag'', ''is_high_value''), (''is_high_value'', ''amount'')}"
  by (auto simp: depEdges_def chainFacts_def derived_def factArg_def valueArg_def argFacts_def
      split: if_splits)

lemma acyclic_chainFacts: "acyclic (depEdges chainFacts)"
  unfolding depEdges_chainFacts
  by (rule acyclicI_order[where f = "\<lambda>s. if s = ''should_flag'' then 2 else if s = ''is_high_value'' then 1 else (0::nat)"])
     auto

lemma depEdges_cycleFacts: "depEdges cycleFacts = {(''a'', ''b''), (''b'', ''a'')}"
  by (auto simp: depEdges_def cycleFacts_def derived_def factArg_def argFacts_def split: if_splits)

lemma cyclic_cycleFacts: "\<not> acyclic (depEdges cycleFacts)"
proof -
  have "(''a'', ''a'') \<in> (depEdges cycleFacts)\<^sup>+"
    unfolding depEdges_cycleFacts by (rule trancl_trans[of _ "''b''"]) auto
  then show ?thesis by (auto simp: acyclic_def)
qed

lemma topoSort_chainFacts: "topoSort chainFacts = [''is_high_value'', ''should_flag'']"
  by (simp add: topoSort_def chainFacts_def visit.simps derived_def factArg_def valueArg_def)

lemma topoSort_cycleFacts: "topoSort cycleFacts = [''b'', ''a'']"
  by (simp add: topoSort_def cycleFacts_def visit.simps derived_def factArg_def)

lemma derive_cycle:
  "deriveFacts wholeFloats (contractOf cycleFacts) NewFactSet
     = Inr (NewFactSet(''b'' \<mapsto> VBool False, ''a'' \<mapsto> VBool True))"
  by (simp add: deriveFacts_def contractOf_def topoSort_cycleFacts)
     (simp add: cycleFacts_def derived_def factArg_def evalDerivation_def getArg_def GetPath_def
        NewFactSet_def Set_fact_def DerivedFactDef0_def)

text \<open>
  References by exact name are ordered. When the graph of the arguments that name a fact
  exactly is acyclic, the order of \<open>topoSort\<close> holds every derived fact exactly once, and
  every derived fact that an entry names stands at an earlier index; when every function
  is in the library \<open>deriveFacts\<close> succeeds and has given a value to every derived fact.
\<close>

theorem topoSort_orders_exact_references:
  assumes "acyclic (depEdges (DerivedFacts c))"
  shows "distinct (topoSort (DerivedFacts c)) \<and>
     set (topoSort (DerivedFacts c)) = fst ` set (DerivedFacts c) \<and>
     (\<forall>i < length (topoSort (DerivedFacts c)). \<forall>f.
        (topoSort (DerivedFacts c) ! i, f) \<in> depEdges (DerivedFacts c) \<and> f \<in> fst ` set (DerivedFacts c)
        \<longrightarrow> (\<exists>j < i. topoSort (DerivedFacts c) ! j = f)) \<and>
     deriveFacts ff c facts = deriveFacts_loop ff c (topoSort (DerivedFacts c)) facts \<and>
     ((\<forall>n \<in> fst ` set (DerivedFacts c). d_Fn (derivationOf c n) \<in> derivationLibrary) \<longrightarrow>
        (\<exists>facts'. deriveFacts ff c facts = Inr facts' \<and>
           dom facts' = dom facts \<union> fst ` set (DerivedFacts c)))"
proof -
  let ?dfs = "DerivedFacts c"
  let ?order = "topoSort ?dfs"
  have ord: "\<forall>i < length ?order. \<forall>f.
        (?order ! i, f) \<in> depEdges ?dfs \<and> f \<in> fst ` set ?dfs \<longrightarrow> (\<exists>j < i. ?order ! j = f)"
  proof (intro allI impI)
    fix i f
    assume i: "i < length ?order" and e: "(?order ! i, f) \<in> depEdges ?dfs \<and> f \<in> fst ` set ?dfs"
    then have "f \<in> set (take i ?order)"
      using topoSort_closedOrder[OF assms] by (simp add: closedOrder_def)
    then obtain j where "j < length (take i ?order)" "take i ?order ! j = f"
      by (auto simp: in_set_conv_nth)
    then show "\<exists>j < i. ?order ! j = f" by auto
  qed
  have ok: "\<exists>facts'. deriveFacts ff c facts = Inr facts' \<and> dom facts' = dom facts \<union> fst ` set ?dfs"
    if known: "\<forall>n \<in> fst ` set ?dfs. d_Fn (derivationOf c n) \<in> derivationLibrary"
  proof -
    have "\<not> (\<exists>e. deriveFacts_loop ff c ?order facts = Inl e)"
      using known deriveFacts_loop_error[of ff c ?order facts] topoSort_set[of ?dfs] by auto
    then obtain facts' where f: "deriveFacts_loop ff c ?order facts = Inr facts'"
      by (cases "deriveFacts_loop ff c ?order facts") auto
    then show ?thesis using deriveFacts_loop_dom[OF f] topoSort_set[of ?dfs]
      by (simp add: deriveFacts_def)
  qed
  show ?thesis using topoSort_distinct topoSort_set ord ok by (simp add: deriveFacts_def)
qed

theorem topoSort_orders_exact_references_witness:
  "acyclic (depEdges (DerivedFacts (contractOf chainFacts))) \<and>
   topoSort (DerivedFacts (contractOf chainFacts)) = [''is_high_value'', ''should_flag''] \<and>
   distinct (topoSort (DerivedFacts (contractOf chainFacts))) \<and>
   d_Fn (derivationOf (contractOf chainFacts) ''is_high_value'') \<in> derivationLibrary \<and>
   d_Fn (derivationOf (contractOf chainFacts) ''should_flag'') \<in> derivationLibrary \<and>
   \<not> isl (deriveFacts wholeFloats (contractOf chainFacts) (NewFactSet(''amount'' \<mapsto> VFloat64 1000))) \<and>
   dom (projr (deriveFacts wholeFloats (contractOf chainFacts) (NewFactSet(''amount'' \<mapsto> VFloat64 1000))))
     = {''amount'', ''is_high_value'', ''should_flag''}"
proof -
  have a: "acyclic (depEdges (DerivedFacts (contractOf chainFacts)))"
    using acyclic_chainFacts by (simp add: contractOf_def)
  have k: "fst ` set (DerivedFacts (contractOf chainFacts)) = {''should_flag'', ''is_high_value''}"
    by (simp add: contractOf_def chainFacts_def)
  have l: "d_Fn (derivationOf (contractOf chainFacts) ''is_high_value'') \<in> derivationLibrary"
    "d_Fn (derivationOf (contractOf chainFacts) ''should_flag'') \<in> derivationLibrary"
    by (simp_all add: derivationOf_def contractOf_def chainFacts_def derived_def
        derivationLibrary_def)
  have t: "topoSort (DerivedFacts (contractOf chainFacts)) = [''is_high_value'', ''should_flag'']"
    using topoSort_chainFacts by (simp add: contractOf_def)
  note th = topoSort_orders_exact_references [OF a, of wholeFloats "NewFactSet(''amount'' \<mapsto> VFloat64 1000)"]
  have d: "distinct (topoSort (DerivedFacts (contractOf chainFacts)))"
    using th by (rule conjunct1)
  have "\<exists>facts'. deriveFacts wholeFloats (contractOf chainFacts) (NewFactSet(''amount'' \<mapsto> VFloat64 1000))
            = Inr facts' \<and>
          dom facts' = dom (NewFactSet(''amount'' \<mapsto> VFloat64 1000))
            \<union> fst ` set (DerivedFacts (contractOf chainFacts))"
    using th [THEN conjunct2, THEN conjunct2, THEN conjunct2, THEN conjunct2] l
    unfolding k by simp
  then obtain facts' where f:
    "deriveFacts wholeFloats (contractOf chainFacts) (NewFactSet(''amount'' \<mapsto> VFloat64 1000)) = Inr facts'"
    "dom facts' = dom (NewFactSet(''amount'' \<mapsto> VFloat64 1000))
            \<union> fst ` set (DerivedFacts (contractOf chainFacts))"
    by blast
  have "dom facts' = {''amount'', ''is_high_value'', ''should_flag''}"
    unfolding f(2) k by (auto simp: NewFactSet_def)
  then show ?thesis using a t d l f(1) by simp
qed

text \<open>
  C5 as stated fails: the two facts of the cycle refer to each other, and
  \<open>deriveFacts\<close> returns no error; it evaluates \<open>b\<close> while \<open>a\<close> is still absent, then
  \<open>a\<close>.
\<close>

theorem derive_cycle_counterexample:
  "\<not> acyclic (depEdges (DerivedFacts (contractOf cycleFacts))) \<and>
   deriveFacts wholeFloats (contractOf cycleFacts) NewFactSet
     = Inr (NewFactSet(''b'' \<mapsto> VBool False, ''a'' \<mapsto> VBool True))"
  using cyclic_cycleFacts derive_cycle by (simp add: contractOf_def)

text \<open>
  C5, as the code has it. On a derived-fact graph with a cycle, \<open>Derive\<close> does not loop
  (\<open>topoSort\<close> is a total function: its \<open>visited\<close> set ends the recursion) and does not
  detect the cycle either: \<open>topoSort\<close> still yields every derived fact exactly once, and
  \<open>deriveFacts\<close> evaluates them in that order, returning an error exactly when some
  derivation names a function outside the library.
\<close>

theorem derive_does_not_detect_cycles:
  assumes "\<not> acyclic (depEdges (DerivedFacts c))"
  shows "distinct (topoSort (DerivedFacts c)) \<and>
     set (topoSort (DerivedFacts c)) = fst ` set (DerivedFacts c) \<and>
     ((\<exists>e. deriveFacts ff c facts = Inl e)
        = (\<exists>n \<in> fst ` set (DerivedFacts c). d_Fn (derivationOf c n) \<notin> derivationLibrary))"
  using topoSort_distinct [of "DerivedFacts c"] topoSort_set [of "DerivedFacts c"]
    deriveFacts_loop_error [of ff c "topoSort (DerivedFacts c)" facts]
  by (simp add: deriveFacts_def)

theorem derive_does_not_detect_cycles_witness:
  "\<not> acyclic (depEdges (DerivedFacts (contractOf cycleFacts))) \<and>
   distinct (topoSort (DerivedFacts (contractOf cycleFacts))) \<and>
   set (topoSort (DerivedFacts (contractOf cycleFacts))) = {''a'', ''b''} \<and>
   \<not> isl (deriveFacts wholeFloats (contractOf cycleFacts) NewFactSet)"
proof -
  have a: "\<not> acyclic (depEdges (DerivedFacts (contractOf cycleFacts)))"
    using cyclic_cycleFacts by (simp add: contractOf_def)
  have k: "fst ` set (DerivedFacts (contractOf cycleFacts)) = {''a'', ''b''}"
    by (simp add: contractOf_def cycleFacts_def)
  have l: "d_Fn (derivationOf (contractOf cycleFacts) ''a'') \<in> derivationLibrary"
    "d_Fn (derivationOf (contractOf cycleFacts) ''b'') \<in> derivationLibrary"
    by (simp_all add: derivationOf_def contractOf_def cycleFacts_def derived_def
        derivationLibrary_def)
  have "\<not> (\<exists>e. deriveFacts wholeFloats (contractOf cycleFacts) NewFactSet = Inl e)"
    using derive_does_not_detect_cycles [OF a, of wholeFloats NewFactSet] l unfolding k by simp
  then have "\<not> isl (deriveFacts wholeFloats (contractOf cycleFacts) NewFactSet)"
    by (cases "deriveFacts wholeFloats (contractOf cycleFacts) NewFactSet") auto
  then show ?thesis
    using derive_does_not_detect_cycles [OF a, of wholeFloats NewFactSet] a unfolding k by simp
qed

lemma split_abc: "split ''a.b.c'' CHR ''.'' = [''a'', ''b'', ''c'']"
  by simp

lemma GetPath_shadow_before: "GetPath shadowBase ''a.b.c'' = (VStr ''deep'', True)"
  by (simp add: GetPath_def shadowBase_def NewFactSet_def split_abc numeral_2_eq_2)

lemma GetPath_shadow_after:
  "GetPath (shadowBase(''a.b'' \<mapsto> VBool False)) ''a.b.c'' = (VNil, False)"
  by (simp add: GetPath_def shadowBase_def NewFactSet_def split_abc numeral_2_eq_2)

lemma topoSort_shadow: "topoSort shadowFacts = [''d'', ''a.b'']"
  by (simp add: topoSort_def shadowFacts_def visit.simps derived_def factArg_def valueArg_def)

lemma topoSort_shadow_rev: "topoSort (rev shadowFacts) = [''a.b'', ''d'']"
  by (simp add: topoSort_def shadowFacts_def visit.simps derived_def factArg_def valueArg_def)

lemma addPath_shadow:
  "addPath (shadowContract shadowFacts) ''a.b.c'' ([], {}) = ([], {''a.b''})"
  by (simp add: addPath.simps split_abc numeral_2_eq_2 shadowContract_def shadowFacts_def
      derived_def valueArg_def)

text \<open>
  C6, at the input where the code departs from it. The argument \<open>a.b.c\<close> of \<open>d\<close>
  refers to the derived fact \<open>a.b\<close>: once \<open>a.b\<close> is stored, \<open>GetPath\<close> resolves the
  path through it, and \<open>neededBaseFacts\<close> follows the path to the derived fact \<open>a.b\<close>
  and not to the base fact \<open>a\<close>. The graph is acyclic. \<open>topoSort\<close> follows exact names
  only, so when the iteration over the map meets \<open>d\<close> first, \<open>d\<close> is ordered and
  evaluated before \<open>a.b\<close>, and its value differs from the one it has when the same
  map is iterated the other way round.
\<close>

theorem derive_order_misses_dotted_reference:
  "GetPath shadowBase ''a.b.c'' = (VStr ''deep'', True) \<and>
   GetPath (shadowBase(''a.b'' \<mapsto> VBool False)) ''a.b.c'' = (VNil, False) \<and>
   addPath (shadowContract shadowFacts) ''a.b.c'' ([], {}) = ([], {''a.b''}) \<and>
   set (rev shadowFacts) = set shadowFacts \<and>
   topoSort (DerivedFacts (shadowContract shadowFacts)) = [''d'', ''a.b''] \<and>
   topoSort (DerivedFacts (shadowContract (rev shadowFacts))) = [''a.b'', ''d''] \<and>
   deriveFacts wholeFloats (shadowContract shadowFacts) shadowBase
     = Inr (shadowBase(''d'' \<mapsto> VBool True, ''a.b'' \<mapsto> VBool False)) \<and>
   deriveFacts wholeFloats (shadowContract (rev shadowFacts)) shadowBase
     = Inr (shadowBase(''a.b'' \<mapsto> VBool False, ''d'' \<mapsto> VBool False))"
proof -
  have 1: "deriveFacts wholeFloats (shadowContract shadowFacts) shadowBase
     = Inr (shadowBase(''d'' \<mapsto> VBool True, ''a.b'' \<mapsto> VBool False))"
    by (simp add: deriveFacts_def shadowContract_def topoSort_shadow)
       (simp add: shadowFacts_def derived_def factArg_def valueArg_def evalDerivation_def
          getArg_def GetPath_shadow_before Set_fact_def)
  have 2: "deriveFacts wholeFloats (shadowContract (rev shadowFacts)) shadowBase
     = Inr (shadowBase(''a.b'' \<mapsto> VBool False, ''d'' \<mapsto> VBool False))"
    by (simp add: deriveFacts_def shadowContract_def topoSort_shadow_rev)
       (simp add: shadowFacts_def derived_def factArg_def valueArg_def evalDerivation_def
          getArg_def GetPath_shadow_after Set_fact_def)
  show ?thesis
    using 1 2 GetPath_shadow_before GetPath_shadow_after topoSort_shadow topoSort_shadow_rev
      addPath_shadow
    by (simp add: shadowContract_def)
qed

section \<open>Properties of Evaluate\<close>

lemma needed_require: "neededBaseFacts requireContract ''testOp'' = [''customer.status'']"
  by (simp add: neededBaseFacts_def requireContract_def requireRule_def leaf_def addPath.simps)

lemma gather_require:
  "gatherFacts plainRuntime mockPorts requireContract ''testOp'' [''customer.status'' \<mapsto> VStr ''unverified'']
     = (Inr [''customer.status'' \<mapsto> VStr ''unverified''], [])"
  by (simp add: gatherFacts_def needed_require)
     (simp add: requireContract_def NewFactSet_def Set_fact_def)

lemma derive_require: "deriveFacts ff requireContract facts = Inr facts"
  by (simp add: deriveFacts_def topoSort_def requireContract_def)

lemma rules_require:
  "evaluateRules ff requireContract ''testOp'' [''customer.status'' \<mapsto> VStr ''unverified'']
     = [requireVerdictOf]"
  by (simp add: evaluateRules_def requireContract_def requireRule_def leaf_def evalCondition.simps
      GetPath_def applyOp.simps ruleVerdict_def requireVerdictOf_def)

lemma op_require:
  "map_of (Operations requireContract) ''testOp''
     = Some \<lparr>o_ConstrainedBy = [''kyc-rule''], o_Transitions = []\<rparr>"
  by (simp add: requireContract_def)

text \<open>\<open>gatherFacts\<close> calls \<open>Get\<close> only; a dry run makes no call but those.\<close>

lemma gatherFacts_calls:
  "call \<in> set (snd (gatherFacts rt ports c operation input)) \<Longrightarrow> \<exists>p f. call = CallGet p f"
  by (auto simp: gatherFacts_def Let_def split: prod.splits option.splits)

lemma Evaluate_dry_run_calls:
  assumes "DryRun req"
  shows "snd (Evaluate rt e req) = [] \<or>
     (\<exists>c. snd (Evaluate rt e req) = snd (gatherFacts rt (e_ports e) c (Operation req) (Input req)))"
proof (cases "e_contract e")
  case None
  then show ?thesis by (simp add: Evaluate_def)
next
  case (Some c)
  obtain res calls where g: "gatherFacts rt (e_ports e) c (Operation req) (Input req) = (res, calls)"
    by (cases "gatherFacts rt (e_ports e) c (Operation req) (Input req)")
  have "snd (Evaluate rt e req) = [] \<or> snd (Evaluate rt e req) = calls"
    using assms Some g
    by (simp add: Evaluate_def Let_def split: option.splits sum.splits prod.splits)
  then show ?thesis using g by (metis snd_conv)
qed

text \<open>
  C2. With \<open>dryRun\<close> set, no call of \<open>Execute\<close> is among the calls \<open>Evaluate\<close> makes on
  the port registry: whatever the contract, the ports, the request and hence the verdicts.
\<close>

theorem dry_run_never_executes:
  assumes "DryRun req"
  shows "CallExecute port operation \<notin> set (snd (Evaluate rt e req))"
  using Evaluate_dry_run_calls [OF assms, of rt e] gatherFacts_calls by fastforce

theorem dry_run_never_executes_witness:
  "DryRun (requireRequest True) \<and>
   CallExecute ''invoiceRepo'' ''testOp''
     \<notin> set (snd (Evaluate plainRuntime requireEngine (requireRequest True)))"
  using dry_run_never_executes [of "requireRequest True" "''invoiceRepo''" "''testOp''"
      plainRuntime requireEngine]
  by (simp add: requireRequest_def)

text \<open>
  C4. With a contract loaded, a request whose \<open>ContractETag\<close> is set and differs from
  the engine's gets the version-mismatch response (\<open>system_error\<close>,
  \<open>CONTRACT_VERSION_MISMATCH\<close>, 409) and \<open>Evaluate\<close> has made no call on the port
  registry; the same holds whatever the ports are and whether \<open>dryRun\<close> is set or not.
\<close>

theorem version_mismatch_rejected_first:
  assumes "e_contract e = Some c" "ContractETag req \<noteq> []" "ContractETag req \<noteq> e_contractETag e"
  shows "Evaluate rt e req = (Inr versionMismatch, []) \<and>
     Evaluate rt (e\<lparr>e_ports := ports\<rparr>) (req\<lparr>DryRun := d\<rparr>) = (Inr versionMismatch, []) \<and>
     Outcome versionMismatch = ''system_error'' \<and>
     map_option ee_Code (Error versionMismatch) = Some ''CONTRACT_VERSION_MISMATCH'' \<and>
     map_option ee_HttpStatus (Error versionMismatch) = Some 409"
  using assms by (simp add: Evaluate_def versionMismatch_def systemError_def Response0_def)

theorem version_mismatch_rejected_first_witness:
  "e_contract requireEngine = Some requireContract \<and>
   ContractETag ((requireRequest True)\<lparr>ContractETag := ''etag-stale''\<rparr>) \<noteq> [] \<and>
   ContractETag ((requireRequest True)\<lparr>ContractETag := ''etag-stale''\<rparr>) \<noteq> e_contractETag requireEngine \<and>
   Evaluate plainRuntime requireEngine ((requireRequest True)\<lparr>ContractETag := ''etag-stale''\<rparr>)
     = (Inr versionMismatch, [])"
proof -
  have a: "e_contract requireEngine = Some requireContract"
    by (simp add: requireEngine_def LoadContract_def NewEngine_def)
  have b: "ContractETag ((requireRequest True)\<lparr>ContractETag := ''etag-stale''\<rparr>) \<noteq> []"
    by simp
  have c: "ContractETag ((requireRequest True)\<lparr>ContractETag := ''etag-stale''\<rparr>)
      \<noteq> e_contractETag requireEngine"
    by (simp add: requireEngine_def LoadContract_def NewEngine_def)
  show ?thesis
    using version_mismatch_rejected_first [OF a b c, of plainRuntime] a b c by simp
qed

text \<open>
  C1, at the input where the code departs from it: the one matching rule gives a
  \<open>require\<close> verdict, which \<open>resolveVerdicts\<close> returns, and the request is no dry run.
  \<open>Evaluate\<close> has cases for \<open>deny\<close> and \<open>escalate\<close> only, so it goes on to
  \<open>Execute\<close> and answers \<open>executed\<close>; its own dry run of the same request answers
  \<open>would_require\<close>.
\<close>

theorem require_verdict_executes:
  "resolveVerdicts (evaluateRules (fmtFloat plainRuntime) requireContract ''testOp''
       [''customer.status'' \<mapsto> VStr ''unverified'']) = Some requireVerdictOf \<and>
   v_Type requireVerdictOf = ''require'' \<and>
   Evaluate plainRuntime requireEngine (requireRequest False)
     = (Inr (Response0\<lparr>Outcome := ''executed'', Output := Some [], Verdicts := [requireVerdictOf]\<rparr>),
        [CallExecute ''invoiceRepo'' ''testOp'']) \<and>
   Outcome (projr (fst (Evaluate plainRuntime requireEngine (requireRequest True)))) = ''would_require''"
  by (simp add: Evaluate_def requireEngine_def LoadContract_def NewEngine_def requireRequest_def
        op_require gather_require derive_require rules_require resolveVerdicts_def)
     (simp add: requireVerdictOf_def mockPorts_def operationPort_def dryRunOutcome_def priority_def)

section \<open>Properties of fact gathering\<close>

text \<open>
  \<open>needed\<close> is a set of names of base facts: the list has no repetition and every name
  is a key of \<open>c.Facts\<close>.
\<close>

lemma addPath_neededInv:
  "neededInv c st \<Longrightarrow> neededInv c (addPath c path st)"
  "neededInv c st \<Longrightarrow> neededInv c (addPath_args c args st)"
  "neededInv c st \<Longrightarrow> neededInv c (addPath_prefix c parts i st)"
proof (induction c path st and c args st and c parts i st
    rule: addPath_addPath_args_addPath_prefix.induct)
  case (1 c path needed derivedVisited)
  show ?case
  proof (cases "map_of (Facts c) path")
    case None
    then show ?thesis using "1.IH" "1.prems"
      by (auto simp: addPath.simps Let_def neededInv_def split: option.splits)
  next
    case (Some d)
    then have "path \<in> fst ` set (Facts c)" by (metis map_of_eq_None_iff option.distinct(1))
    then show ?thesis using "1.prems" Some by (auto simp: addPath.simps neededInv_def)
  qed
next
  case (2 c st)
  then show ?case by simp
next
  case (3 c arg args st)
  then show ?case by auto
next
  case (4 c parts st)
  then show ?case by simp
next
  case (5 c parts j needed derivedVisited)
  let ?prefix = "join (take (Suc j) parts) ''.''"
  show ?case
  proof (cases "map_of (Facts c) ?prefix")
    case None
    then show ?thesis using "5.IH" "5.prems" by (auto simp: Let_def)
  next
    case (Some d)
    then have "?prefix \<in> fst ` set (Facts c)" by (metis map_of_eq_None_iff option.distinct(1))
    then show ?thesis using "5.prems" Some by (auto simp: neededInv_def Let_def)
  qed
qed

lemma foldl_inv:
  assumes "\<And>s x. x \<in> set xs \<Longrightarrow> P s \<Longrightarrow> P (f s x)" "P st"
  shows "P (foldl f st xs)"
  using assms by (induction xs arbitrary: st) auto

lemma collectFromCondition_inv:
  "(\<And>p s. P s \<Longrightarrow> P (collect p s)) \<Longrightarrow> P st \<Longrightarrow> P (collectFromCondition cond collect st)"
proof (induction cond collect st rule: collectFromCondition.induct)
  case (1 alls anys neg fname eq gt lt inn collect st)
  note step = "1.prems"(1)
  let ?st1 = "if fname \<noteq> [] then collect fname st else st"
  let ?st2 = "foldl (\<lambda>s sub. collectFromCondition sub collect s) ?st1 alls"
  let ?st3 = "foldl (\<lambda>s sub. collectFromCondition sub collect s) ?st2 anys"
  have p1: "P ?st1" using "1.prems"(2) by (auto intro: step)
  have p2: "P ?st2"
  proof (rule foldl_inv[where P = P, OF _ p1])
    fix s x assume "x \<in> set alls" "P s"
    then show "P (collectFromCondition x collect s)"
      using "1.IH"(1)[OF refl _ step] by blast
  qed
  have p3: "P ?st3"
  proof (rule foldl_inv[where P = P, OF _ p2])
    fix s x assume "x \<in> set anys" "P s"
    then show "P (collectFromCondition x collect s)"
      using "1.IH"(2)[OF refl refl _ step] by blast
  qed
  show ?case
  proof (cases neg)
    case None
    then show ?thesis using p3 by (simp add: Let_def)
  next
    case (Some sub)
    then show ?thesis using "1.IH"(3)[OF refl refl refl Some step p3] by (simp add: Let_def)
  qed
qed

lemma neededBaseFacts_distinct: "distinct (neededBaseFacts c operation)"
  and neededBaseFacts_subset: "set (neededBaseFacts c operation) \<subseteq> fst ` set (Facts c)"
proof -
  have col: "neededInv c st \<Longrightarrow> neededInv c (collectFromCondition cond (addPath c) st)" for cond st
    by (rule collectFromCondition_inv[where P = "neededInv c"]) (rule addPath_neededInv(1))
  have rules: "neededInv c st \<Longrightarrow> neededInv c (needed_rules_loop c ruleID rules st)" for ruleID rules st
    by (induction rules arbitrary: st) (simp_all add: col)
  have ids: "neededInv c st \<Longrightarrow> neededInv c (needed_ids_loop c ruleIDs st)" for ruleIDs st
    by (induction ruleIDs arbitrary: st) (simp_all add: rules)
  have "neededInv c ([], {})" by (simp add: neededInv_def)
  then have "neededInv c (needed_ids_loop c ids' ([], {}))" for ids' by (rule ids)
  then show "distinct (neededBaseFacts c operation)"
    and "set (neededBaseFacts c operation) \<subseteq> fst ` set (Facts c)"
    by (auto simp: neededBaseFacts_def neededInv_def split: option.splits)
qed

text \<open>
  The ranks of the runtime stand for every order of iteration: any arrangement of
  distinct names is what sorting by some rank gives.
\<close>

lemma every_order_has_a_rank:
  assumes "distinct xs" "distinct ys" "set ys = set xs"
  shows "\<exists>rank :: string \<Rightarrow> nat. sort_key rank xs = ys"
proof -
  let ?rank = "\<lambda>n. length (takeWhile (\<lambda>y. y \<noteq> n) ys)"
  have ms: "mset ys = mset xs" using assms by (simp add: set_eq_iff_mset_eq_distinct)
  have rk: "?rank (ys ! i) = i" if "i < length ys" for i
  proof -
    have "takeWhile (\<lambda>y. y \<noteq> ys ! i) ys = take i ys"
      using that assms(2) by (intro takeWhile_eq_take_P_nth) (auto simp: nth_eq_iff_index_eq)
    then show ?thesis using that by simp
  qed
  have inj: "?rank a = ?rank b \<Longrightarrow> a = b" if "a \<in> set ys" "b \<in> set ys" for a b
    using that by (metis in_set_conv_nth rk)
  have srt: "sorted (map ?rank ys)"
    by (auto simp: sorted_iff_nth_mono rk)
  have one: "filter (\<lambda>x. k = x) zs = [k]" if "distinct zs" "k \<in> set zs" for k and zs :: "string list"
    using that by (induction zs) (auto simp: filter_empty_conv)
  have "sort_key ?rank xs = ys"
  proof (rule properties_for_sort_key)
    show "mset ys = mset xs" by (rule ms)
    show "sorted (map ?rank ys)" by (rule srt)
    fix k assume k: "k \<in> set ys"
    have "filter (\<lambda>x. ?rank k = ?rank x) ys = filter (\<lambda>x. k = x) ys"
      using inj k by (intro filter_cong) auto
    moreover have "filter (\<lambda>x. ?rank k = ?rank x) xs = filter (\<lambda>x. k = x) xs"
      using inj k assms(3) by (intro filter_cong) auto
    ultimately show "filter (\<lambda>x. ?rank k = ?rank x) ys = filter (\<lambda>x. ?rank k = ?rank x) xs"
      using one[OF assms(2) k] one[OF assms(1)] k assms(3) by simp
  qed
  then show ?thesis by blast
qed

lemma hasPrefix_port: "hasPrefix s ''port:'' \<Longrightarrow> s \<noteq> ''input'' \<and> s \<noteq> ''ctx''"
  by (auto simp: hasPrefix_def)

lemma portFactsOf_Cons:
  "portFactsOf c (n # names) =
     (case map_of (Facts c) n of
        Some d \<Rightarrow> if hasPrefix (fd_Source d) ''port:'' then [(n, d)] else []
      | None \<Rightarrow> []) @ portFactsOf c names"
  by (simp add: portFactsOf_def)

text \<open>One round of the first loop that does not return.\<close>

lemma gather_loop_step:
  assumes "gather_loop c input (n # names) (facts, started) = (None, facts', started')"
  shows "gather_loop c input names
           (case directValue c input n of None \<Rightarrow> facts | Some v \<Rightarrow> facts(n \<mapsto> v),
            started @ portFactsOf c [n]) = (None, facts', started') \<and>
         (\<forall>d. map_of (Facts c) n = Some d \<and> fd_Source d = ''input'' \<and> fd_Required d
            \<longrightarrow> input n \<noteq> None)"
proof (cases "map_of (Facts c) n")
  case None
  then show ?thesis using assms by (simp add: directValue_def portFactsOf_def)
next
  case (Some d)
  consider (inp) "fd_Source d = ''input''"
    | (ctx) "fd_Source d \<noteq> ''input''" "fd_Source d = ''ctx''"
    | (port) "fd_Source d \<noteq> ''input''" "fd_Source d \<noteq> ''ctx''" "hasPrefix (fd_Source d) ''port:''"
    | (other) "fd_Source d \<noteq> ''input''" "fd_Source d \<noteq> ''ctx''" "\<not> hasPrefix (fd_Source d) ''port:''"
    by blast
  then show ?thesis
  proof cases
    case inp
    then have np: "\<not> hasPrefix (fd_Source d) ''port:''" by (simp add: hasPrefix_def)
    show ?thesis using assms Some inp np
      by (cases "input n")
         (auto simp: directValue_def portFactsOf_def Set_fact_def split: if_splits)
  next
    case ctx
    then have np: "\<not> hasPrefix (fd_Source d) ''port:''" by (simp add: hasPrefix_def)
    show ?thesis using assms Some ctx np
      by (cases "n = ''user.roles''") (auto simp: directValue_def portFactsOf_def Set_fact_def)
  next
    case port
    then show ?thesis using assms Some
      by (simp add: directValue_def portFactsOf_def)
  next
    case other
    then show ?thesis using assms Some
      by (simp add: directValue_def portFactsOf_def)
  qed
qed

lemma gather_loop_success:
  "gather_loop c input names (facts, started) = (None, facts', started') \<Longrightarrow>
   started' = started @ portFactsOf c names \<and>
   (\<forall>name. facts' name = (if name \<in> set names \<and> directValue c input name \<noteq> None
                      then directValue c input name else facts name)) \<and>
   (\<forall>n \<in> set names. \<forall>d. map_of (Facts c) n = Some d \<and> fd_Source d = ''input'' \<and> fd_Required d
       \<longrightarrow> input n \<noteq> None)"
proof (induction names arbitrary: facts started)
  case Nil
  then show ?case by (simp add: portFactsOf_def)
next
  case (Cons n names)
  let ?facts1 = "case directValue c input n of None \<Rightarrow> facts | Some v \<Rightarrow> facts(n \<mapsto> v)"
  from gather_loop_step[OF Cons.prems]
  have step: "gather_loop c input names (?facts1, started @ portFactsOf c [n]) = (None, facts', started')"
    and req: "\<forall>d. map_of (Facts c) n = Some d \<and> fd_Source d = ''input'' \<and> fd_Required d
            \<longrightarrow> input n \<noteq> None" by auto
  from Cons.IH[OF step]
  have s: "started' = (started @ portFactsOf c [n]) @ portFactsOf c names"
    and f: "\<forall>name. facts' name = (if name \<in> set names \<and> directValue c input name \<noteq> None
                      then directValue c input name else ?facts1 name)"
    and r: "\<forall>n \<in> set names. \<forall>d. map_of (Facts c) n = Some d \<and> fd_Source d = ''input'' \<and> fd_Required d
       \<longrightarrow> input n \<noteq> None" by auto
  have 1: "started' = started @ portFactsOf c (n # names)"
    using s by (simp add: portFactsOf_def)
  have 2: "\<forall>name. facts' name = (if name \<in> set (n # names) \<and> directValue c input name \<noteq> None
                      then directValue c input name else facts name)"
  proof
    fix name
    show "facts' name = (if name \<in> set (n # names) \<and> directValue c input name \<noteq> None
                      then directValue c input name else facts name)"
      using f[rule_format, of name] by (cases "directValue c input n") auto
  qed
  have 3: "\<forall>m \<in> set (n # names). \<forall>d. map_of (Facts c) m = Some d \<and> fd_Source d = ''input'' \<and> fd_Required d
       \<longrightarrow> input m \<noteq> None" using req r by auto
  show ?case using 1 2 3 by blast
qed

text \<open>
  The second loop, when it does not return an error. The results are those of one
  gathering, so the result and the definition are determined by the name.
\<close>

lemma collect_loop_success:
  assumes "collect_loop rs facts = Inr facts'"
    and "\<forall>(n, d, r) \<in> set rs. d = D n \<and> r = G n"
  shows "(\<forall>name. facts' name =
            (if name \<in> fst ` set rs
             then (case G name of Inr v \<Rightarrow> Some v | Inl reason \<Rightarrow> facts name)
             else facts name)) \<and>
         (\<forall>name \<in> fst ` set rs. isl (G name) \<longrightarrow> fd_OnMissing (D name) = ''skip'')"
  using assms
proof (induction rs arbitrary: facts)
  case Nil
  then show ?case by simp
next
  case (Cons x rs)
  obtain n d r where x: "x = (n, d, r)" by (cases x)
  have dr: "d = D n" "r = G n" and rest: "\<forall>(n, d, r) \<in> set rs. d = D n \<and> r = G n"
    using Cons.prems(2) x by auto
  show ?case
  proof (cases r)
    case (Inl reason)
    then have skip: "fd_OnMissing d = ''skip''" and c: "collect_loop rs facts = Inr facts'"
      using Cons.prems(1) x by (auto split: if_splits)
    have gn: "G n = Inl reason" using dr Inl by simp
    from Cons.IH[OF c rest] show ?thesis using x dr(1) gn skip by auto
  next
    case (Inr v)
    then have c: "collect_loop rs (Set_fact facts n v) = Inr facts'"
      using Cons.prems(1) x by simp
    have gn: "G n = Inr v" using dr Inr by simp
    from Cons.IH[OF c rest]
    have f: "\<forall>name. facts' name =
            (if name \<in> fst ` set rs
             then (case G name of Inr v \<Rightarrow> Some v | Inl reason \<Rightarrow> Set_fact facts n v name)
             else Set_fact facts n v name)"
      and s: "\<forall>name \<in> fst ` set rs. isl (G name) \<longrightarrow> fd_OnMissing (D name) = ''skip''"
      by auto
    have "facts' name =
            (if name \<in> fst ` set (x # rs)
             then (case G name of Inr v \<Rightarrow> Some v | Inl reason \<Rightarrow> facts name)
             else facts name)" for name
      using f[rule_format, of name] x gn
      by (cases "name = n") (auto simp: Set_fact_def split: sum.splits)
    moreover have "\<forall>name \<in> fst ` set (x # rs). isl (G name) \<longrightarrow> fd_OnMissing (D name) = ''skip''"
      using s x gn by auto
    ultimately show ?thesis by blast
  qed
qed

lemma portFactsOf_set:
  "(n, d) \<in> set (portFactsOf c names) \<longleftrightarrow>
     n \<in> set names \<and> map_of (Facts c) n = Some d \<and> hasPrefix (fd_Source d) ''port:''"
  by (auto simp: portFactsOf_def split: option.splits if_splits)

lemma needed_ctx: "neededBaseFacts ctxContract ''testOp'' = [''user.id'']"
  by (simp add: neededBaseFacts_def ctxContract_def leaf_def addPath.simps)

text \<open>
  What a successful \<open>gatherFacts\<close> holds. When \<open>gatherFacts\<close> returns without error,
  the fact set holds exactly this for each name: for a base fact the rules of the operation need, the value
  the request input supplies if the fact is input-sourced, the fixed roles if it is the
  context fact \<open>user.roles\<close>, the answer of the port if it is port-sourced and \<open>Get\<close>
  succeeded, and nothing otherwise; for any other name, nothing. Every needed input fact
  that is required is supplied, and every needed port fact whose \<open>Get\<close> failed has the
  policy \<open>skip\<close>.
\<close>

theorem gatherFacts_success:
  assumes "gatherFacts rt ports c operation input = (Inr facts, calls)"
  shows "(\<forall>name. facts name =
            (if name \<in> set (neededBaseFacts c operation) then factValue ports c input name
             else None)) \<and>
         (\<forall>name \<in> set (neededBaseFacts c operation). \<forall>def. map_of (Facts c) name = Some def \<longrightarrow>
            (fd_Source def = ''input'' \<and> fd_Required def \<longrightarrow> input name \<noteq> None) \<and>
            (hasPrefix (fd_Source def) ''port:'' \<and>
               isl (port_Get ports (portName (fd_Source def)) name input)
             \<longrightarrow> fd_OnMissing def = ''skip''))"
proof -
  let ?needed = "sort_key (rangeRank rt) (neededBaseFacts c operation)"
  let ?D = "\<lambda>n. the (map_of (Facts c) n)"
  let ?G = "\<lambda>n. port_Get ports (portName (fd_Source (?D n))) n input"
  have sn: "set ?needed = set (neededBaseFacts c operation)" by simp
  obtain err facts0 started where g: "gather_loop c input ?needed (NewFactSet, []) = (err, facts0, started)"
    by (cases "gather_loop c input ?needed (NewFactSet, [])") auto
  let ?results = "map (\<lambda>(n, d). (n, d, port_Get ports (portName (fd_Source d)) n input)) started"
  let ?rs = "sort_key (\<lambda>(n, d, r). recvRank rt n) ?results"
  have e: "err = None" and col: "collect_loop ?rs facts0 = Inr facts"
    using assms g by (auto simp: gatherFacts_def Let_def split: option.splits)
  from gather_loop_success[OF g[unfolded e]]
  have st: "started = portFactsOf c ?needed"
    and f0: "\<forall>name. facts0 name = (if name \<in> set ?needed \<and> directValue c input name \<noteq> None
                      then directValue c input name else NewFactSet name)"
    and rq: "\<forall>n \<in> set ?needed. \<forall>d. map_of (Facts c) n = Some d \<and> fd_Source d = ''input'' \<and> fd_Required d
       \<longrightarrow> input n \<noteq> None" by auto
  have srs: "set ?rs = set ?results" by simp
  have fun_rs: "\<forall>(n, d, r) \<in> set ?rs. d = ?D n \<and> r = ?G n"
    by (auto simp: st portFactsOf_set)
  have names_rs: "\<And>name. name \<in> fst ` set ?rs \<longleftrightarrow>
      name \<in> set (neededBaseFacts c operation) \<and>
      (\<exists>d. map_of (Facts c) name = Some d \<and> hasPrefix (fd_Source d) ''port:'')"
  proof -
    fix name
    have "set ?rs = (\<lambda>(n, d). (n, d, port_Get ports (portName (fd_Source d)) n input)) ` set started"
      by simp
    then have eq: "fst ` set ?rs = fst ` set (portFactsOf c ?needed)"
      unfolding st by (simp add: image_image case_prod_unfold)
    show "name \<in> fst ` set ?rs \<longleftrightarrow>
      name \<in> set (neededBaseFacts c operation) \<and>
      (\<exists>d. map_of (Facts c) name = Some d \<and> hasPrefix (fd_Source d) ''port:'')"
    proof
      assume "name \<in> fst ` set ?rs"
      then obtain x where x: "x \<in> set (portFactsOf c ?needed)" "name = fst x"
        unfolding eq by blast
      then have "(name, snd x) \<in> set (portFactsOf c ?needed)" by simp
      then show "name \<in> set (neededBaseFacts c operation) \<and>
          (\<exists>d. map_of (Facts c) name = Some d \<and> hasPrefix (fd_Source d) ''port:'')"
        unfolding portFactsOf_set sn by blast
    next
      assume "name \<in> set (neededBaseFacts c operation) \<and>
          (\<exists>d. map_of (Facts c) name = Some d \<and> hasPrefix (fd_Source d) ''port:'')"
      then obtain d where "name \<in> set ?needed" "map_of (Facts c) name = Some d"
        "hasPrefix (fd_Source d) ''port:''" unfolding sn by blast
      then have "(name, d) \<in> set (portFactsOf c ?needed)"
        unfolding portFactsOf_set by blast
      then have "fst (name, d) \<in> fst ` set (portFactsOf c ?needed)" by (rule imageI)
      then show "name \<in> fst ` set ?rs" unfolding eq by simp
    qed
  qed
  from collect_loop_success[OF col fun_rs]
  have fin: "\<forall>name. facts name =
            (if name \<in> fst ` set ?rs
             then (case ?G name of Inr v \<Rightarrow> Some v | Inl reason \<Rightarrow> facts0 name)
             else facts0 name)"
    and sk: "\<forall>name \<in> fst ` set ?rs. isl (?G name) \<longrightarrow> fd_OnMissing (?D name) = ''skip''"
    by auto
  have A: "\<forall>name. facts name =
            (if name \<in> set (neededBaseFacts c operation) then factValue ports c input name
             else None)"
  proof
    fix name
    show "facts name =
            (if name \<in> set (neededBaseFacts c operation) then factValue ports c input name
             else None)"
    proof (cases "name \<in> fst ` set ?rs")
      case True
      then obtain d where d: "name \<in> set (neededBaseFacts c operation)"
        "map_of (Facts c) name = Some d" "hasPrefix (fd_Source d) ''port:''"
        using names_rs by blast
      have dv: "directValue c input name = None"
        using d hasPrefix_port[OF d(3)] by (simp add: directValue_def)
      have "facts0 name = None" using f0 dv by (simp add: NewFactSet_def)
      then show ?thesis
        using fin[rule_format, of name] True d hasPrefix_port[OF d(3)]
        by (simp add: factValue_def split: sum.splits)
    next
      case False
      then have np: "name \<in> set (neededBaseFacts c operation) \<Longrightarrow>
          \<forall>d. map_of (Facts c) name = Some d \<longrightarrow> \<not> hasPrefix (fd_Source d) ''port:''"
        using names_rs by blast
      have "facts name = facts0 name" using fin False by simp
      then show ?thesis
        using f0[rule_format, of name] np sn
        by (auto simp: NewFactSet_def directValue_def factValue_def split: option.splits)
    qed
  qed
  have B: "\<forall>name \<in> set (neededBaseFacts c operation). \<forall>def. map_of (Facts c) name = Some def \<longrightarrow>
            (fd_Source def = ''input'' \<and> fd_Required def \<longrightarrow> input name \<noteq> None) \<and>
            (hasPrefix (fd_Source def) ''port:'' \<and>
               isl (port_Get ports (portName (fd_Source def)) name input)
             \<longrightarrow> fd_OnMissing def = ''skip'')"
  proof (intro ballI allI impI conjI)
    fix name def
    assume n: "name \<in> set (neededBaseFacts c operation)" and m: "map_of (Facts c) name = Some def"
    { assume "fd_Source def = ''input'' \<and> fd_Required def"
      then show "input name \<noteq> None" using rq n m sn by blast }
    { assume p: "hasPrefix (fd_Source def) ''port:'' \<and>
               isl (port_Get ports (portName (fd_Source def)) name input)"
      then have "name \<in> fst ` set ?rs" using names_rs n m by blast
      then show "fd_OnMissing def = ''skip''" using sk p m by auto }
  qed
  show ?thesis using A B by blast
qed

theorem gatherFacts_success_witness:
  "gatherFacts plainRuntime mockPorts requireContract ''testOp''
       [''customer.status'' \<mapsto> VStr ''unverified'']
     = (Inr [''customer.status'' \<mapsto> VStr ''unverified''], []) \<and>
   ''customer.status'' \<in> set (neededBaseFacts requireContract ''testOp'') \<and>
   factValue mockPorts requireContract [''customer.status'' \<mapsto> VStr ''unverified'']
       ''customer.status'' = Some (VStr ''unverified'')"
proof -
  have "factValue mockPorts requireContract [''customer.status'' \<mapsto> VStr ''unverified'']
       ''customer.status'' = [''customer.status'' \<mapsto> VStr ''unverified''] ''customer.status''"
    using gatherFacts_success [OF gather_require, THEN conjunct1, rule_format,
        of "''customer.status''"]
    by (simp add: needed_require)
  then show ?thesis using gather_require by (simp add: needed_require)
qed

lemma needed_ctxAsInput: "neededBaseFacts ctxAsInputContract ''testOp'' = [''user.id'']"
  by (simp add: neededBaseFacts_def ctxAsInputContract_def ctxContract_def leaf_def addPath.simps)

text \<open>
  C7, at the input where the code departs from it. The one rule of the operation reads
  the fact \<open>user.id\<close>, which the contract declares context-sourced and required, and
  \<open>neededBaseFacts\<close> lists it. \<open>gatherFacts\<close> returns without error and without a call
  of a port, and the fact set it returns is empty: the required fact is absent, no absence
  is recorded, and the rule that reads it silently does not match. The same contract with
  the fact declared input-sourced makes \<open>gatherFacts\<close> return the error for a required
  fact that is missing.
\<close>

theorem gatherFacts_omits_required_ctx_fact:
  "neededBaseFacts ctxContract ''testOp'' = [''user.id''] \<and>
   map_of (Facts ctxContract) ''user.id''
     = Some \<lparr>fd_Source = ''ctx'', fd_Required = True, fd_OnMissing = []\<rparr> \<and>
   gatherFacts plainRuntime mockPorts ctxContract ''testOp'' Map.empty = (Inr NewFactSet, []) \<and>
   NewFactSet ''user.id'' = None \<and>
   evaluateRules wholeFloats ctxContract ''testOp'' NewFactSet = [] \<and>
   neededBaseFacts ctxAsInputContract ''testOp'' = [''user.id''] \<and>
   map_of (Facts ctxAsInputContract) ''user.id''
     = Some \<lparr>fd_Source = ''input'', fd_Required = True, fd_OnMissing = []\<rparr> \<and>
   gatherFacts plainRuntime mockPorts ctxAsInputContract ''testOp'' Map.empty
     = (Inl (RequiredInputMissing ''user.id''), [])"
proof -
  have 1: "map_of (Facts ctxContract) ''user.id''
     = Some \<lparr>fd_Source = ''ctx'', fd_Required = True, fd_OnMissing = []\<rparr>"
    by (simp add: ctxContract_def)
  have 2: "gatherFacts plainRuntime mockPorts ctxContract ''testOp'' Map.empty = (Inr NewFactSet, [])"
    by (simp add: gatherFacts_def needed_ctx 1)
  have 3: "NewFactSet ''user.id'' = None" by (simp add: NewFactSet_def)
  have 4: "evaluateRules wholeFloats ctxContract ''testOp'' NewFactSet = []"
    by (simp add: evaluateRules_def ctxContract_def leaf_def evalCondition.simps GetPath_def
        NewFactSet_def applyOp.simps)
  have 5: "map_of (Facts ctxAsInputContract) ''user.id''
     = Some \<lparr>fd_Source = ''input'', fd_Required = True, fd_OnMissing = []\<rparr>"
    by (simp add: ctxAsInputContract_def)
  have 6: "gatherFacts plainRuntime mockPorts ctxAsInputContract ''testOp'' Map.empty
     = (Inl (RequiredInputMissing ''user.id''), [])"
    by (simp add: gatherFacts_def needed_ctxAsInput 5)
  show ?thesis using needed_ctx 1 2 3 4 needed_ctxAsInput 5 6 by blast
qed

section \<open>Properties of the dry run\<close>

























end
